theory Spec2Isabelle
  imports Complex_Main "HOL-Library.Sublist"
begin

section \<open>Values, errors and the outside world\<close>

text \<open>
  The gateway (\<^verbatim>\<open>gateway/src\<close>) is Python on asyncio and httpx. Its functions are
  embedded with the types their annotations declare: a \<^verbatim>\<open>str\<close> is a \<^typ>\<open>string\<close>,
  \<^verbatim>\<open>Optional[str]\<close> a \<^typ>\<open>string option\<close>, \<^verbatim>\<open>List[str]\<close> a \<^typ>\<open>string list\<close>.
  Bodies that arrive over HTTP are untyped: they are values of \<open>json\<close>, the result
  of \<^verbatim>\<open>r.json()\<close>. A number is kept by its value (\<^verbatim>\<open>404\<close> and \<^verbatim>\<open>404.0\<close> are
  equal in Python); the literals \<^verbatim>\<open>NaN\<close> and \<^verbatim>\<open>Infinity\<close> are left out. An object
  is the list of the items of the parsed \<^verbatim>\<open>dict\<close>, whose keys are distinct.
\<close>

datatype json =
    JNull
  | JBool bool
  | JNum rat
  | JStr string
  | JArr "json list"
  | JObj "(string \<times> json) list"

text \<open>The exceptions that the modelled code can raise.\<close>

datatype error =
    TransportError
  | HTTPStatusError nat
  | JSONDecodeError
  | AttributeError
  | TypeError
  | KeyError
  | IndexError

text \<open>Python's truth value of a JSON value, as \<^verbatim>\<open>if x:\<close> and \<^verbatim>\<open>x or y\<close> test it.\<close>

fun truthy :: "json \<Rightarrow> bool" where
  "truthy JNull = False"
| "truthy (JBool b) = b"
| "truthy (JNum q) = (q \<noteq> 0)"
| "truthy (JStr s) = (s \<noteq> [])"
| "truthy (JArr xs) = (xs \<noteq> [])"
| "truthy (JObj kvs) = (kvs \<noteq> [])"

text \<open>
  \<^verbatim>\<open>d.get(k)\<close> on a value: a \<^verbatim>\<open>dict\<close> answers (\<open>None\<close> for a missing key), every
  other JSON value has no attribute \<^verbatim>\<open>get\<close>.
\<close>

fun py_get :: "json \<Rightarrow> string \<Rightarrow> error + json option" where
  "py_get (JObj kvs) k = Inr (map_of kvs k)"
| "py_get _ k = Inl AttributeError"

text \<open>
  \<^verbatim>\<open>for m in v\<close>: a list gives its elements, a \<^verbatim>\<open>str\<close> its one-character strings, a
  \<^verbatim>\<open>dict\<close> its keys; \<^verbatim>\<open>None\<close>, a number and a boolean are not iterable.
\<close>

fun py_iter :: "json \<Rightarrow> error + json list" where
  "py_iter (JArr xs) = Inr xs"
| "py_iter (JStr s) = Inr (map (\<lambda>c. JStr [c]) s)"
| "py_iter (JObj kvs) = Inr (map (\<lambda>kv. JStr (fst kv)) kvs)"
| "py_iter _ = Inl TypeError"

text \<open>An HTTP response as the code reads it: \<^verbatim>\<open>r.status_code\<close>, \<^verbatim>\<open>r.json()\<close>
  (\<open>None\<close> when it raises) and \<^verbatim>\<open>r.text\<close>.\<close>

record response =
  status_code :: nat
  json_body :: "json option"
  text_body :: string

datatype http_reply = Failed | Reply response

text \<open>
  \<^verbatim>\<open>r.raise_for_status()\<close> of httpx raises \<^verbatim>\<open>HTTPStatusError\<close> unless the status is a
  success (2xx).
\<close>

definition is_success :: "nat \<Rightarrow> bool" where
  "is_success s = (200 \<le> s \<and> s \<le> 299)"

definition raise_for_status :: "response \<Rightarrow> error + unit" where
  "raise_for_status r =
     (if is_success (status_code r) then Inr () else Inl (HTTPStatusError (status_code r)))"

section \<open>The model listing (\<^verbatim>\<open>ModelRegistry._fetch_models\<close>)\<close>

text \<open>
  \<^verbatim>\<open>[m["id"] for m in data.get("data", []) if isinstance(m, dict) and "id" in m]\<close>:
  \<open>id_values\<close> is the comprehension over the elements, \<open>extract_ids\<close> the whole
  expression on the parsed body \<^verbatim>\<open>data\<close>.
\<close>

fun id_values :: "json list \<Rightarrow> json list" where
  "id_values [] = []"
| "id_values (JObj kvs # ms) =
     (case map_of kvs ''id'' of
        Some v \<Rightarrow> v # id_values ms
      | None \<Rightarrow> id_values ms)"
| "id_values (m # ms) = id_values ms"

definition extract_ids :: "json \<Rightarrow> error + json list" where
  "extract_ids data =
     (case py_get data ''data'' of
        Inl e \<Rightarrow> Inl e
      | Inr None \<Rightarrow> Inr (id_values [])
      | Inr (Some d) \<Rightarrow>
          (case py_iter d of
             Inl e \<Rightarrow> Inl e
           | Inr ms \<Rightarrow> Inr (id_values ms)))"

text \<open>
  \<^verbatim>\<open>_fetch_models\<close> is declared to return \<^verbatim>\<open>List[str]\<close>: \<open>str_of\<close> reads an
  \<^verbatim>\<open>"id"\<close> value at that type. It is specified on strings only; a listing with an
  id that is not a string lies outside the declared type.
\<close>

fun str_of :: "json \<Rightarrow> string" where
  "str_of (JStr s) = s"

section \<open>Request payload\<close>

text \<open>
  The inbound JSON body of \<^verbatim>\<open>POST /v1/chat/completions\<close>, a \<^verbatim>\<open>dict\<close>. The entry
  \<^verbatim>\<open>"model"\<close> is missing, \<^verbatim>\<open>null\<close> or a string (the OpenAI schema and the
  \<^verbatim>\<open>Optional[str]\<close> it is passed as); \<^verbatim>\<open>"messages"\<close> and \<^verbatim>\<open>"stream"\<close> are kept as
  the JSON they are (\<open>None\<close>: no such key); \<open>other\<close> holds the remaining entries.
\<close>

datatype model_field = Absent | Null | Model string

record payload =
  model :: model_field
  messages :: "json option"
  stream :: "json option"
  other :: "(string \<times> json) list"

text \<open>\<^verbatim>\<open>payload.get("model")\<close>: \<open>None\<close> for a missing key and for \<^verbatim>\<open>null\<close>.\<close>

fun get_model :: "model_field \<Rightarrow> string option" where
  "get_model Absent = None"
| "get_model Null = None"
| "get_model (Model s) = Some s"

text \<open>\<^verbatim>\<open>payload.setdefault("model", v)\<close>: stores only where the key is missing.\<close>

fun setdefault_model :: "model_field \<Rightarrow> string \<Rightarrow> model_field" where
  "setdefault_model Absent v = Model v"
| "setdefault_model f v = f"

section \<open>Upstream byte streams\<close>

text \<open>
  A \<^verbatim>\<open>bytes\<close> chunk is a list of bytes. The upstream's answer to a streaming
  \<^verbatim>\<open>POST\<close> is a transport failure, or a status code with the chunks that
  \<^verbatim>\<open>r.aiter_bytes()\<close> delivers and the way the stream ends: the upstream closes it
  (\<open>Closed\<close>), or the connection drops and the iterator raises (\<open>Dropped\<close>).
\<close>

type_synonym bytes = "char list"

datatype stream_end = Closed | Dropped

datatype stream_reply = Stream_failed | Stream nat "bytes list" stream_end

section \<open>Registry state and the upstream\<close>

text \<open>
  The attributes of \<^verbatim>\<open>ModelRegistry\<close> (\<^verbatim>\<open>_models\<close> and \<^verbatim>\<open>_last_fetch\<close> without the
  underscore). Times and durations are Python floats; they are rationals here, without
  rounding.
\<close>

record registry =
  ttl_sec :: rat
  retries :: int
  retry_delay_sec :: rat
  models :: "string list"
  last_fetch :: rat

text \<open>
  Everything outside the process, and what the process did to it:
  \<^item> \<open>clock\<close> gives the value of the \<open>n\<close>-th call of \<^verbatim>\<open>time.time()\<close>, \<open>ticks\<close> counts
    the calls made;
  \<^item> \<open>models_api n\<close> is the upstream's answer to the \<open>n\<close>-th \<^verbatim>\<open>GET /v1/models\<close>,
    \<open>gets\<close> counts the requests sent;
  \<^item> \<open>chat_api n p\<close> is the answer to the \<open>n\<close>-th buffered
    \<^verbatim>\<open>POST /v1/chat/completions\<close> when its body is \<open>p\<close>, \<open>posted\<close> lists the bodies
    sent;
  \<^item> \<open>stream_api p\<close> is the answer to a streaming \<^verbatim>\<open>POST /v1/chat/completions\<close>
    with body \<open>p\<close>;
  \<^item> \<open>slept\<close> lists the delays passed to \<^verbatim>\<open>asyncio.sleep\<close>, \<open>printed\<close> the exceptions
    reported on standard output.
\<close>

record world =
  clock :: "nat \<Rightarrow> rat"
  ticks :: nat
  models_api :: "nat \<Rightarrow> http_reply"
  gets :: nat
  chat_api :: "nat \<Rightarrow> payload \<Rightarrow> http_reply"
  posted :: "payload list"
  stream_api :: "payload \<Rightarrow> stream_reply"
  slept :: "rat list"
  printed :: "error list"

definition time_time :: "world \<Rightarrow> rat \<times> world" where
  "time_time w = (clock w (ticks w), w\<lparr>ticks := Suc (ticks w)\<rparr>)"

definition sleep :: "rat \<Rightarrow> world \<Rightarrow> world" where
  "sleep d w = w\<lparr>slept := slept w @ [d]\<rparr>"

definition print_warning :: "error \<Rightarrow> world \<Rightarrow> world" where
  "print_warning e w = w\<lparr>printed := printed w @ [e]\<rparr>"

section \<open>\<^verbatim>\<open>ModelRegistry\<close>: refresh\<close>

text \<open>\<^verbatim>\<open>_is_fresh\<close>: the clock is read only when \<^verbatim>\<open>ttl_sec\<close> is positive.\<close>

definition is_fresh :: "registry \<Rightarrow> world \<Rightarrow> bool \<times> world" where
  "is_fresh reg w =
     (if ttl_sec reg \<le> 0 then (False, w)
      else (case time_time w of (now, w') \<Rightarrow> (now - last_fetch reg < ttl_sec reg, w')))"

text \<open>
  \<^verbatim>\<open>_fetch_models\<close>: \<open>read_models\<close> is what happens to the answer of
  \<^verbatim>\<open>client.get(url)\<close> (\<^verbatim>\<open>raise_for_status\<close>, \<^verbatim>\<open>r.json()\<close>, the comprehension);
  \<open>fetch_models\<close> sends the request and reads its answer.
\<close>

definition read_models :: "http_reply \<Rightarrow> error + string list" where
  "read_models a =
     (case a of
        Failed \<Rightarrow> Inl TransportError
      | Reply r \<Rightarrow>
          (case raise_for_status r of
             Inl e \<Rightarrow> Inl e
           | Inr u \<Rightarrow>
               (case json_body r of
                  None \<Rightarrow> Inl JSONDecodeError
                | Some data \<Rightarrow>
                    (case extract_ids data of
                       Inl e \<Rightarrow> Inl e
                     | Inr ids \<Rightarrow> Inr (map str_of ids)))))"

definition fetch_models :: "world \<Rightarrow> (error + string list) \<times> world" where
  "fetch_models w = (read_models (models_api w (gets w)), w\<lparr>gets := Suc (gets w)\<rparr>)"

text \<open>
  What \<^verbatim>\<open>refresh\<close> does with a listing that was fetched: a non-empty one replaces
  \<^verbatim>\<open>_models\<close> and stamps \<^verbatim>\<open>_last_fetch\<close>, an empty one changes nothing.
\<close>

definition store_models :: "string list \<Rightarrow> registry \<Rightarrow> world \<Rightarrow> registry \<times> world" where
  "store_models ids reg w =
     (if ids \<noteq> [] then
        (case time_time w of (now, w') \<Rightarrow> (reg\<lparr>models := ids, last_fetch := now\<rparr>, w'))
      else (reg, w))"

text \<open>
  The \<^verbatim>\<open>for _ in range(...)\<close> loop of \<^verbatim>\<open>refresh\<close> with \<open>n\<close> iterations left and
  the current \<^verbatim>\<open>last_exc\<close>, followed by the warning after the loop. A fetched listing
  returns from \<^verbatim>\<open>refresh\<close> at once; an exception is caught, is followed by a sleep
  when \<^verbatim>\<open>force\<close> is set, and the loop goes on.
\<close>

fun fetch_loop :: "bool \<Rightarrow> nat \<Rightarrow> error option \<Rightarrow> registry \<Rightarrow> world \<Rightarrow> registry \<times> world" where
  "fetch_loop force 0 last_exc reg w =
     (case last_exc of
        None \<Rightarrow> (reg, w)
      | Some e \<Rightarrow> (reg, print_warning e w))"
| "fetch_loop force (Suc n) last_exc reg w =
     (case fetch_models w of
        (Inr ids, w1) \<Rightarrow> store_models ids reg w1
      | (Inl e, w1) \<Rightarrow>
          fetch_loop force n (Some e) reg
            (if force then sleep (retry_delay_sec reg) w1 else w1))"

text \<open>\<^verbatim>\<open>max(1, self.retries if force else 1)\<close>\<close>

definition attempts :: "bool \<Rightarrow> registry \<Rightarrow> nat" where
  "attempts force reg = nat (max 1 (if force then retries reg else 1))"

text \<open>
  \<^verbatim>\<open>refresh\<close>, run by one task on its own (the lock is free, so taking it changes
  nothing). The result is that of an \<^verbatim>\<open>async def\<close> returning \<^verbatim>\<open>None\<close>: an exception or
  \<open>()\<close>, with the registry and the world as they are afterwards.
\<close>

definition refresh :: "bool \<Rightarrow> registry \<Rightarrow> world \<Rightarrow> (error + unit) \<times> registry \<times> world" where
  "refresh force reg w =
     (if force then (Inr (), fetch_loop force (attempts force reg) None reg w)
      else
        (case is_fresh reg w of
           (fresh, w1) \<Rightarrow>
             if fresh then (Inr (), reg, w1)
             else
               (case is_fresh reg w1 of
                  (fresh_now, w2) \<Rightarrow>
                    if fresh_now then (Inr (), reg, w2)
                    else (Inr (), fetch_loop force (attempts force reg) None reg w2))))"

text \<open>\<^verbatim>\<open>warmup\<close>\<close>

definition warmup :: "registry \<Rightarrow> world \<Rightarrow> (error + unit) \<times> registry \<times> world" where
  "warmup reg w = refresh True reg w"

section \<open>\<^verbatim>\<open>ModelRegistry\<close>: resolution\<close>

text \<open>\<^verbatim>\<open>if x: candidates.append(x)\<close> for an \<^verbatim>\<open>Optional[str]\<close>.\<close>

fun append_if :: "string option \<Rightarrow> string list \<Rightarrow> string list" where
  "append_if None cs = cs"
| "append_if (Some s) cs = (if s \<noteq> [] then cs @ [s] else cs)"

definition candidates :: "string option \<Rightarrow> string option \<Rightarrow> string list" where
  "candidates requested default_model = append_if default_model (append_if requested [])"

text \<open>\<^verbatim>\<open>for c in candidates: if c in models: return c\<close>\<close>

fun first_known :: "string list \<Rightarrow> string list \<Rightarrow> string option" where
  "first_known [] ms = None"
| "first_known (c # cs) ms = (if c \<in> set ms then Some c else first_known cs ms)"

text \<open>\<^verbatim>\<open>if x: return x\<close>, else go on to \<open>rest\<close>.\<close>

fun return_if :: "string option \<Rightarrow> string \<Rightarrow> string" where
  "return_if None rest = rest"
| "return_if (Some s) rest = (if s \<noteq> [] then s else rest)"

text \<open>The body of \<^verbatim>\<open>resolve_model\<close> after the snapshot \<^verbatim>\<open>models\<close> is taken.\<close>

definition pick_model :: "string list \<Rightarrow> string option \<Rightarrow> string option \<Rightarrow> string" where
  "pick_model ms requested default_model =
     (case first_known (candidates requested default_model) ms of
        Some c \<Rightarrow> c
      | None \<Rightarrow>
          (case ms of
             m # rest \<Rightarrow> m
           | [] \<Rightarrow> return_if requested (return_if default_model [])))"

definition resolve_model ::
  "string option \<Rightarrow> string option \<Rightarrow> registry \<Rightarrow> world \<Rightarrow> (error + string) \<times> registry \<times> world" where
  "resolve_model requested default_model reg w =
     (case refresh False reg w of
        (Inl e, reg1, w1) \<Rightarrow> (Inl e, reg1, w1)
      | (Inr u, reg1, w1) \<Rightarrow> (Inr (pick_model (models reg1) requested default_model), reg1, w1))"

section \<open>\<^verbatim>\<open>ModelRegistry\<close>: retry after a 404\<close>

text \<open>
  \<^verbatim>\<open>s.lower()\<close>. The capitals \<open>A\<close> to \<open>Z\<close> are mapped; every other character is left
  as it is. Python also maps capitals beyond ASCII, to characters beyond ASCII: they
  cannot become part of an occurrence of the two ASCII patterns searched below.
\<close>

definition lower_char :: "char \<Rightarrow> char" where
  "lower_char c =
     (if 65 \<le> (of_char c :: nat) \<and> (of_char c :: nat) \<le> 90
      then char_of (of_char c + 32 :: nat) else c)"

definition lower :: "string \<Rightarrow> string" where
  "lower s = map lower_char s"

text \<open>\<^verbatim>\<open>pat in s\<close> for two strings: \<open>pat\<close> occurs in \<open>s\<close> as a contiguous substring.\<close>

fun starts_with :: "string \<Rightarrow> string \<Rightarrow> bool" where
  "starts_with [] s = True"
| "starts_with (p # ps) [] = False"
| "starts_with (p # ps) (c # cs) = (p = c \<and> starts_with ps cs)"

fun py_in :: "string \<Rightarrow> string \<Rightarrow> bool" where
  "py_in pat [] = (pat = [])"
| "py_in pat (c # cs) = (starts_with pat (c # cs) \<or> py_in pat cs)"

text \<open>\<^verbatim>\<open>x or y\<close> where \<open>x\<close> is \<open>None\<close> or a JSON value.\<close>

fun py_or :: "json option \<Rightarrow> json \<Rightarrow> json" where
  "py_or None y = y"
| "py_or (Some x) y = (if truthy x then x else y)"

text \<open>\<^verbatim>\<open>v.lower()\<close> on a value: only a \<^verbatim>\<open>str\<close> has the method.\<close>

fun py_lower :: "json \<Rightarrow> error + string" where
  "py_lower (JStr s) = Inr (lower s)"
| "py_lower _ = Inl AttributeError"

text \<open>
  \<^verbatim>\<open>_is_model_not_found_404\<close>. Its four lines run in order, so \<^verbatim>\<open>msg\<close> is computed
  (and may raise) before \<^verbatim>\<open>code == 404\<close> is looked at.
\<close>

definition is_model_not_found_404 :: "json \<Rightarrow> error + bool" where
  "is_model_not_found_404 resp_json =
     (case py_get resp_json ''error'' of
        Inl e \<Rightarrow> Inl e
      | Inr error_entry \<Rightarrow>
          (let err = py_or error_entry (JObj []) in
           case py_get err ''code'' of
             Inl e \<Rightarrow> Inl e
           | Inr code \<Rightarrow>
               (case py_get err ''message'' of
                  Inl e \<Rightarrow> Inl e
                | Inr message \<Rightarrow>
                    (case py_lower (py_or message (JStr [])) of
                       Inl e \<Rightarrow> Inl e
                     | Inr msg \<Rightarrow>
                         Inr (code = Some (JNum 404)
                              \<or> py_in ''does not exist'' msg
                              \<or> py_in ''not found'' msg)))))"

text \<open>\<^verbatim>\<open>return new_model if new_model else None\<close>\<close>

definition none_if_empty :: "string \<Rightarrow> string option" where
  "none_if_empty s = (if s \<noteq> [] then Some s else None)"

definition maybe_retry_on_model_404 ::
  "nat \<Rightarrow> json option \<Rightarrow> string option \<Rightarrow> string option \<Rightarrow> registry \<Rightarrow> world
     \<Rightarrow> (error + string option) \<times> registry \<times> world" where
  "maybe_retry_on_model_404 resp_status resp_json requested default_model reg w =
     (if resp_status \<noteq> 404 then (Inr None, reg, w)
      else
        (case is_model_not_found_404 (py_or resp_json (JObj [])) of
           Inl e \<Rightarrow> (Inl e, reg, w)
         | Inr found \<Rightarrow>
             if \<not> found then (Inr None, reg, w)
             else
               (case refresh True reg w of
                  (Inl e, reg1, w1) \<Rightarrow> (Inl e, reg1, w1)
                | (Inr u, reg1, w1) \<Rightarrow>
                    (case resolve_model requested default_model reg1 w1 of
                       (Inl e, reg2, w2) \<Rightarrow> (Inl e, reg2, w2)
                     | (Inr new_model, reg2, w2) \<Rightarrow> (Inr (none_if_empty new_model), reg2, w2)))))"

section \<open>Streaming proxy (\<^verbatim>\<open>VLLMBackend.stream_openai_sse\<close>)\<close>

text \<open>
  The asynchronous generator is described by what it does, in order: \<open>Recv c\<close> when
  \<^verbatim>\<open>async for\<close> takes the chunk \<open>c\<close> from the upstream, \<open>Yield c\<close> when it hands \<open>c\<close> to
  its consumer, \<open>Raise e\<close> when it ends with an exception. A trace without \<open>Raise\<close> is
  a generator that ends normally.
\<close>

datatype event = Recv bytes | Yield bytes | Raise error

text \<open>\<^verbatim>\<open>async for chunk in r.aiter_bytes(): if chunk: yield chunk\<close>\<close>

fun relay_loop :: "bytes list \<Rightarrow> stream_end \<Rightarrow> event list" where
  "relay_loop [] Closed = []"
| "relay_loop [] Dropped = [Raise TransportError]"
| "relay_loop (chunk # rest) e =
     (if chunk \<noteq> [] then Recv chunk # Yield chunk # relay_loop rest e
      else Recv chunk # relay_loop rest e)"

definition stream_openai_sse :: "stream_reply \<Rightarrow> event list" where
  "stream_openai_sse a =
     (case a of
        Stream_failed \<Rightarrow> [Raise TransportError]
      | Stream status chunks e \<Rightarrow>
          if is_success status then relay_loop chunks e
          else [Raise (HTTPStatusError status)])"

text \<open>The chunks a consumer of the generator receives, and those the generator read.\<close>

fun yielded :: "event list \<Rightarrow> bytes list" where
  "yielded [] = []"
| "yielded (Yield c # evs) = c # yielded evs"
| "yielded (ev # evs) = yielded evs"

fun received :: "event list \<Rightarrow> bytes list" where
  "received [] = []"
| "received (Recv c # evs) = c # received evs"
| "received (ev # evs) = received evs"

text \<open>
  No chunk is held back: wherever the trace has a \<open>Yield c\<close>, the event just before it
  is the \<open>Recv\<close> of the same \<open>c\<close>.
\<close>

fun unbuffered :: "event list \<Rightarrow> bool" where
  "unbuffered [] = True"
| "unbuffered (Recv c # Yield d # evs) = (c = d \<and> unbuffered evs)"
| "unbuffered (Yield d # evs) = False"
| "unbuffered (ev # evs) = unbuffered evs"

section \<open>Request router (\<^verbatim>\<open>chat_completions\<close>)\<close>

text \<open>
  The environment variables the handler reads: \<^verbatim>\<open>DEFAULT_MODEL\<close> (with its default
  already applied) and \<^verbatim>\<open>FORCE_JA\<close>.
\<close>

record environ =
  env_DEFAULT_MODEL :: string
  env_FORCE_JA :: string

text \<open>
  What the handler returns: \<^verbatim>\<open>JSONResponse(content, status_code)\<close>, or a
  \<^verbatim>\<open>StreamingResponse\<close> over the generator, given by its trace.
\<close>

datatype http_out = JSONResponse nat json | StreamingResponse "event list"

text \<open>
  Lines 97 to 102: the resolved model is stored when it is not empty; otherwise
  \<^verbatim>\<open>payload.setdefault("model", default_model)\<close> runs.
\<close>

definition resolve_step ::
  "string \<Rightarrow> payload \<Rightarrow> registry \<Rightarrow> world \<Rightarrow> (error + payload) \<times> registry \<times> world" where
  "resolve_step default_model p reg w =
     (case resolve_model (get_model (model p)) (Some default_model) reg w of
        (Inl e, reg1, w1) \<Rightarrow> (Inl e, reg1, w1)
      | (Inr resolved, reg1, w1) \<Rightarrow>
          (Inr (if resolved \<noteq> [] then p\<lparr>model := Model resolved\<rparr>
                else p\<lparr>model := setdefault_model (model p) default_model\<rparr>),
           reg1, w1))"

text \<open>The system message of the \<^verbatim>\<open>FORCE_JA\<close> policy; its content is Japanese text, given
  here by its UTF-8 bytes.\<close>

definition ja_content :: string where
  "ja_content = map char_of
     [229, 191, 133, 227, 129, 154, 230, 151, 165, 230, 156, 172, 232, 170, 158, 227, 129,
      167, 229, 155, 158, 231, 173, 148, 227, 129, 151, 227, 129, 166, 227, 129, 143, 227,
      129, 160, 227, 129, 149, 227, 129, 132, 227, 128, 130 :: nat]"

definition ja_message :: json where
  "ja_message = JObj [(''role'', JStr ''system''), (''content'', JStr ja_content)]"

text \<open>\<^verbatim>\<open>len(v)\<close> and \<^verbatim>\<open>v[0]\<close> on a JSON value.\<close>

fun py_len :: "json \<Rightarrow> error + nat" where
  "py_len (JArr xs) = Inr (length xs)"
| "py_len (JStr s) = Inr (length s)"
| "py_len (JObj kvs) = Inr (length kvs)"
| "py_len _ = Inl TypeError"

fun py_first :: "json \<Rightarrow> error + json" where
  "py_first (JArr (x # xs)) = Inr x"
| "py_first (JArr []) = Inl IndexError"
| "py_first (JStr (c # cs)) = Inr (JStr [c])"
| "py_first (JStr []) = Inl IndexError"
| "py_first (JObj kvs) = Inl KeyError"
| "py_first _ = Inl TypeError"

text \<open>\<^verbatim>\<open>len(msgs) > 0 and msgs[0].get("role") == "system"\<close>\<close>

definition system_first :: "json \<Rightarrow> error + bool" where
  "system_first msgs =
     (case py_len msgs of
        Inl e \<Rightarrow> Inl e
      | Inr n \<Rightarrow>
          if 0 < n then
            (case py_first msgs of
               Inl e \<Rightarrow> Inl e
             | Inr m \<Rightarrow>
                 (case py_get m ''role'' of
                    Inl e \<Rightarrow> Inl e
                  | Inr role \<Rightarrow> Inr (role = Some (JStr ''system''))))
          else Inr False)"

text \<open>Lines 109 to 113, the body of \<^verbatim>\<open>if os.getenv("FORCE_JA", "1") == "1"\<close>.\<close>

definition inject_ja :: "payload \<Rightarrow> error + payload" where
  "inject_ja p =
     (let msgs = py_or (messages p) (JArr []) in
      case system_first msgs of
        Inl e \<Rightarrow> Inl e
      | Inr is_system \<Rightarrow>
          if is_system then Inr (p\<lparr>messages := Some msgs\<rparr>)
          else
            (case msgs of
               JArr xs \<Rightarrow> Inr (p\<lparr>messages := Some (JArr (ja_message # xs))\<rparr>)
             | _ \<Rightarrow> Inl TypeError))"

text \<open>\<^verbatim>\<open>bool(payload.get("stream", False))\<close>\<close>

definition wants_stream :: "payload \<Rightarrow> bool" where
  "wants_stream p = (case stream p of None \<Rightarrow> False | Some v \<Rightarrow> truthy v)"

text \<open>One buffered \<^verbatim>\<open>http_client.post(vllm_url, json=payload, ...)\<close>.\<close>

definition post_chat :: "payload \<Rightarrow> world \<Rightarrow> (error + response) \<times> world" where
  "post_chat p w =
     (case chat_api w (length (posted w)) p of
        Failed \<Rightarrow> (Inl TransportError, w\<lparr>posted := posted w @ [p]\<rparr>)
      | Reply r \<Rightarrow> (Inr r, w\<lparr>posted := posted w @ [p]\<rparr>))"

text \<open>Lines 178 to 181: the upstream's JSON with its status, or the raw text wrapped.\<close>

definition json_response :: "response \<Rightarrow> http_out" where
  "json_response r =
     (case json_body r of
        Some content \<Rightarrow> JSONResponse (status_code r) content
      | None \<Rightarrow> JSONResponse (status_code r) (JObj [(''raw'', JStr (text_body r))]))"

text \<open>\<^verbatim>\<open>if new_model and new_model != payload.get("model")\<close>\<close>

fun retry_model :: "string option \<Rightarrow> payload \<Rightarrow> string option" where
  "retry_model None p = None"
| "retry_model (Some m) p = (if m \<noteq> [] \<and> get_model (model p) \<noteq> Some m then Some m else None)"

text \<open>Lines 141 to 181, the path taken when \<^verbatim>\<open>stream\<close> is false.\<close>

definition buffered ::
  "string option \<Rightarrow> string \<Rightarrow> payload \<Rightarrow> registry \<Rightarrow> world
     \<Rightarrow> (error + http_out) \<times> registry \<times> world" where
  "buffered requested_model default_model p reg w =
     (case post_chat p w of
        (Inl e, w1) \<Rightarrow> (Inl e, reg, w1)
      | (Inr r, w1) \<Rightarrow>
          if status_code r = 404 then
            (case maybe_retry_on_model_404 (status_code r) (json_body r)
                    requested_model (Some default_model) reg w1 of
               (Inl e, reg2, w2) \<Rightarrow> (Inl e, reg2, w2)
             | (Inr new_model, reg2, w2) \<Rightarrow>
                 (case retry_model new_model p of
                    None \<Rightarrow> (Inr (json_response r), reg2, w2)
                  | Some m \<Rightarrow>
                      (case post_chat (p\<lparr>model := Model m\<rparr>) w2 of
                         (Inl e, w3) \<Rightarrow> (Inl e, reg2, w3)
                       | (Inr r2, w3) \<Rightarrow> (Inr (json_response r2), reg2, w3))))
          else (Inr (json_response r), reg, w1))"

text \<open>The handler, from the parsed body to the response.\<close>

definition chat_completions ::
  "environ \<Rightarrow> payload \<Rightarrow> registry \<Rightarrow> world \<Rightarrow> (error + http_out) \<times> registry \<times> world" where
  "chat_completions env p reg w =
     (let requested_model = get_model (model p);
          default_model = env_DEFAULT_MODEL env
      in case resolve_step default_model p reg w of
           (Inl e, reg1, w1) \<Rightarrow> (Inl e, reg1, w1)
         | (Inr p1, reg1, w1) \<Rightarrow>
             (case (if env_FORCE_JA env = ''1'' then inject_ja p1 else Inr p1) of
                Inl e \<Rightarrow> (Inl e, reg1, w1)
              | Inr p2 \<Rightarrow>
                  if wants_stream p2
                  then (Inr (StreamingResponse (stream_openai_sse (stream_api w1 p2))), reg1, w1)
                  else buffered requested_model default_model p2 reg1 w1))"

section \<open>Concurrent calls of \<^verbatim>\<open>refresh\<close>\<close>

text \<open>
  asyncio runs one task at a time; a task gives up control only where an \<^verbatim>\<open>await\<close>
  suspends. In \<^verbatim>\<open>refresh\<close> these places are: \<^verbatim>\<open>async with self._lock\<close> when the lock
  is held, the request inside \<^verbatim>\<open>_fetch_models\<close>, and \<^verbatim>\<open>asyncio.sleep\<close>. A call of
  \<^verbatim>\<open>refresh\<close> is therefore at one of the following points:
  \<^item> \<open>Start\<close>: called, not yet run;
  \<^item> \<open>Wait_lock\<close>: suspended in \<^verbatim>\<open>async with self._lock\<close>;
  \<^item> \<open>Await_get k n last_exc\<close>: holding the lock, request number \<open>k\<close> sent and not yet
    answered, \<open>n\<close> iterations of the loop left after this one;
  \<^item> \<open>Asleep n last_exc\<close>: holding the lock, in \<^verbatim>\<open>asyncio.sleep\<close>, \<open>n\<close> iterations left;
  \<^item> \<open>Done\<close>: returned.
\<close>

datatype pc =
    Start
  | Wait_lock
  | Await_get nat nat "error option"
  | Asleep nat "error option"
  | Done

text \<open>
  The registry and its lock are shared by the calls; each call has its \<^verbatim>\<open>force\<close>
  argument and its point in the code.
\<close>

record system =
  shared :: registry
  outside :: world
  locked :: bool
  calls :: "(bool \<times> pc) list"

text \<open>
  The head of the \<^verbatim>\<open>for\<close> loop with \<open>n\<close> iterations left: the next request is sent and
  the call suspends; after the last iteration the warning is printed and the lock is
  released.
\<close>

fun enter_loop ::
  "nat \<Rightarrow> error option \<Rightarrow> registry \<Rightarrow> world \<Rightarrow> pc \<times> registry \<times> world \<times> bool" where
  "enter_loop 0 last_exc reg w =
     (case last_exc of
        None \<Rightarrow> (Done, reg, w, False)
      | Some e \<Rightarrow> (Done, reg, print_warning e w, False))"
| "enter_loop (Suc n) last_exc reg w =
     (Await_get (gets w) n last_exc, reg, w\<lparr>gets := Suc (gets w)\<rparr>, True)"

text \<open>The lock has just been taken: the second freshness test, then the loop.\<close>

definition with_lock :: "bool \<Rightarrow> registry \<Rightarrow> world \<Rightarrow> pc \<times> registry \<times> world \<times> bool" where
  "with_lock force reg w =
     (if force then enter_loop (attempts force reg) None reg w
      else
        (case is_fresh reg w of
           (fresh_now, w1) \<Rightarrow>
             if fresh_now then (Done, reg, w1, False)
             else enter_loop (attempts force reg) None reg w1))"

text \<open>
  One call runs from where it is to its next suspension. A call in \<open>Wait_lock\<close> goes
  on only when the lock is free; the answer to a request is read when the call is
  resumed.
\<close>

fun call_step ::
  "bool \<Rightarrow> pc \<Rightarrow> registry \<Rightarrow> world \<Rightarrow> bool \<Rightarrow> pc \<times> registry \<times> world \<times> bool" where
  "call_step force Start reg w lk =
     (if force then (if lk then (Wait_lock, reg, w, lk) else with_lock force reg w)
      else
        (case is_fresh reg w of
           (fresh, w1) \<Rightarrow>
             if fresh then (Done, reg, w1, lk)
             else if lk then (Wait_lock, reg, w1, lk)
             else with_lock force reg w1))"
| "call_step force Wait_lock reg w lk =
     (if lk then (Wait_lock, reg, w, lk) else with_lock force reg w)"
| "call_step force (Await_get k n last_exc) reg w lk =
     (case read_models (models_api w k) of
        Inr ids \<Rightarrow> (case store_models ids reg w of (reg1, w1) \<Rightarrow> (Done, reg1, w1, False))
      | Inl e \<Rightarrow>
          if force then (Asleep n (Some e), reg, sleep (retry_delay_sec reg) w, lk)
          else enter_loop n (Some e) reg w)"
| "call_step force (Asleep n last_exc) reg w lk = enter_loop n last_exc reg w"
| "call_step force Done reg w lk = (Done, reg, w, lk)"

text \<open>The scheduler resumes call number \<open>i\<close>.\<close>

definition resume :: "nat \<Rightarrow> system \<Rightarrow> system" where
  "resume i s =
     (if i < length (calls s) then
        (case call_step (fst (calls s ! i)) (snd (calls s ! i)) (shared s) (outside s) (locked s) of
           (pc1, reg1, w1, lk1) \<Rightarrow>
             \<lparr>shared = reg1, outside = w1, locked = lk1,
              calls = (calls s)[i := (fst (calls s ! i), pc1)]\<rparr>)
      else s)"

text \<open>A schedule is the order in which the event loop resumes the calls.\<close>

fun run :: "nat list \<Rightarrow> system \<Rightarrow> system" where
  "run [] s = s"
| "run (i # sched) s = run sched (resume i s)"

text \<open>\<open>n\<close> calls of \<^verbatim>\<open>refresh(force=True)\<close>, all made and none yet run.\<close>

definition forced_calls :: "nat \<Rightarrow> registry \<Rightarrow> world \<Rightarrow> system" where
  "forced_calls n reg w =
     \<lparr>shared = reg, outside = w, locked = False, calls = replicate n (True, Start)\<rparr>"

text \<open>The calls that have returned, and those with a request in flight.\<close>

definition all_done :: "system \<Rightarrow> bool" where
  "all_done s = list_all (\<lambda>c. snd c = Done) (calls s)"

fun in_flight :: "pc \<Rightarrow> bool" where
  "in_flight (Await_get k n last_exc) = True"
| "in_flight p = False"

definition fetching :: "system \<Rightarrow> nat" where
  "fetching s = length (filter (\<lambda>c. in_flight (snd c)) (calls s))"

text \<open>
  Absent failures: each of the next \<open>n\<close> requests for the listing is answered with a
  listing.
\<close>

definition listed_for :: "nat \<Rightarrow> world \<Rightarrow> bool" where
  "listed_for n w =
     list_all (\<lambda>k. \<not> isl (read_models (models_api w k))) [gets w..<gets w + n]"

text \<open>The calls that have sent a request: those waiting for its answer and, among forced
  calls that meet no failure, those that have returned.\<close>

fun issued :: "pc \<Rightarrow> bool" where
  "issued (Await_get k n last_exc) = True"
| "issued Done = True"
| "issued p = False"

section \<open>The specification's wording\<close>

text \<open>
  The elements of the \<^verbatim>\<open>"data"\<close> array that are objects containing an \<^verbatim>\<open>"id"\<close> key, and
  the value such an element has under that key.
\<close>

fun has_id :: "json \<Rightarrow> bool" where
  "has_id (JObj e) = (map_of e ''id'' \<noteq> None)"
| "has_id m = False"

fun id_value :: "json \<Rightarrow> json" where
  "id_value (JObj e) = (case map_of e ''id'' of Some v \<Rightarrow> v | None \<Rightarrow> JNull)"
| "id_value m = JNull"

text \<open>
  Resolution as the specification words it. A candidate is present when it is neither
  \<open>None\<close> nor the empty string; the candidate list is \<open>requested\<close> (if present), then
  \<open>default\<close> (if present).
\<close>

definition present :: "string option \<Rightarrow> bool" where
  "present x = (x \<noteq> None \<and> x \<noteq> Some [])"

definition spec_candidates :: "string option \<Rightarrow> string option \<Rightarrow> string list" where
  "spec_candidates requested default_model =
     (if present requested then [the requested] else [])
     @ (if present default_model then [the default_model] else [])"

definition spec_resolve :: "string list \<Rightarrow> string option \<Rightarrow> string option \<Rightarrow> string" where
  "spec_resolve snapshot requested default_model =
     (case find (\<lambda>c. c \<in> set snapshot) (spec_candidates requested default_model) of
        Some c \<Rightarrow> c
      | None \<Rightarrow>
          if snapshot \<noteq> [] then hd snapshot
          else if present requested then the requested
          else if present default_model then the default_model
          else [])"

text \<open>
  The "model not found" signal of the specification, for a body that is an object with
  the items \<open>kvs\<close>: an error object whose code equals 404, or whose message contains,
  whatever the case of its letters, "does not exist" or "not found".
\<close>

definition contains_ci :: "string \<Rightarrow> string \<Rightarrow> bool" where
  "contains_ci pat s = (\<exists>u. sublist u s \<and> lower u = lower pat)"

definition not_found_signal :: "(string \<times> json) list \<Rightarrow> bool" where
  "not_found_signal kvs =
     (\<exists>err. map_of kvs ''error'' = Some (JObj err)
        \<and> (map_of err ''code'' = Some (JNum 404)
             \<or> (\<exists>m. map_of err ''message'' = Some (JStr m)
                   \<and> (contains_ci ''does not exist'' m \<or> contains_ci ''not found'' m))))"

text \<open>
  The bodies on which \<^verbatim>\<open>_is_model_not_found_404\<close> answers: the \<^verbatim>\<open>"error"\<close> entry is
  missing, falsy or an object, and the \<^verbatim>\<open>"message"\<close> entry of that object is missing,
  falsy or a string.
\<close>

fun message_readable :: "json option \<Rightarrow> bool" where
  "message_readable None = True"
| "message_readable (Some (JStr s)) = True"
| "message_readable (Some v) = (\<not> truthy v)"

fun error_readable :: "json option \<Rightarrow> bool" where
  "error_readable None = True"
| "error_readable (Some (JObj err)) = message_readable (map_of err ''message'')"
| "error_readable (Some v) = (\<not> truthy v)"

section \<open>Invariants of concurrent calls\<close>

text \<open>
  What holds of forced calls, all answered with a listing, at every moment of every
  schedule (\<open>w0\<close> is the world in which the \<open>n\<close> calls were made): every call is forced and
  is not asleep, a request it waits for is one of the next \<open>n\<close>; the requests sent so far
  are as many as the calls that have sent one; a request is in flight exactly while the
  lock is held, and then only one.
\<close>

definition call_ok :: "nat \<Rightarrow> nat \<Rightarrow> bool \<times> pc \<Rightarrow> bool" where
  "call_ok lo hi c =
     (fst c \<and>
      (case snd c of
         Await_get k n last_exc \<Rightarrow> lo \<le> k \<and> k < hi
       | Asleep n last_exc \<Rightarrow> False
       | _ \<Rightarrow> True))"

definition forced_inv :: "nat \<Rightarrow> world \<Rightarrow> system \<Rightarrow> bool" where
  "forced_inv n w0 s =
     (length (calls s) = n
      \<and> list_all (call_ok (gets w0) (gets w0 + n)) (calls s)
      \<and> models_api (outside s) = models_api w0
      \<and> gets (outside s) = gets w0 + length (filter (\<lambda>c. issued (snd c)) (calls s))
      \<and> fetching s = (if locked s then 1 else 0))"

text \<open>The schedule in which the calls run one after the other, each resumed twice.\<close>

definition in_turn :: "nat \<Rightarrow> nat list" where
  "in_turn n = concat (map (\<lambda>i. [i, i]) [0..<n])"

text \<open>\<open>n\<close> calls of \<^verbatim>\<open>refresh(force=False)\<close>, all made and none yet run.\<close>

definition unforced_calls :: "nat \<Rightarrow> registry \<Rightarrow> world \<Rightarrow> system" where
  "unforced_calls n reg w =
     \<lparr>shared = reg, outside = w, locked = False, calls = replicate n (False, Start)\<rparr>"

text \<open>
  Calls that are not forced, on a cache that is stale at every clock reading, while all
  clock readings lie within one TTL of each other. Before the listing is stored
  (\<open>stale_phase\<close>) the registry is the initial one, no call has returned, and the one
  request there may be is in flight under the lock. After it (\<open>fresh_phase\<close>) the cache
  holds the listing with a time stamp read from the clock, the lock is free, one request
  has been sent, and no call waits for an answer.
\<close>

definition unforced_ok :: "nat \<Rightarrow> bool \<times> pc \<Rightarrow> bool" where
  "unforced_ok k c =
     (\<not> fst c \<and>
      (case snd c of
         Await_get j n last_exc \<Rightarrow> j = k \<and> n = 0
       | Asleep n last_exc \<Rightarrow> False
       | Done \<Rightarrow> False
       | _ \<Rightarrow> True))"

definition stale_phase :: "registry \<Rightarrow> world \<Rightarrow> system \<Rightarrow> bool" where
  "stale_phase reg0 w0 s =
     (shared s = reg0
      \<and> list_all (unforced_ok (gets w0)) (calls s)
      \<and> fetching s = (if locked s then 1 else 0)
      \<and> gets (outside s) = gets w0 + fetching s)"

definition settled :: "bool \<times> pc \<Rightarrow> bool" where
  "settled c = (\<not> fst c \<and> (snd c = Start \<or> snd c = Wait_lock \<or> snd c = Done))"

definition fresh_phase :: "string list \<Rightarrow> registry \<Rightarrow> world \<Rightarrow> system \<Rightarrow> bool" where
  "fresh_phase ids reg0 w0 s =
     ((\<exists>t. shared s = reg0\<lparr>models := ids, last_fetch := clock w0 t\<rparr>)
      \<and> list_all settled (calls s)
      \<and> \<not> locked s
      \<and> gets (outside s) = Suc (gets w0))"

section \<open>Example inputs\<close>

text \<open>A registry with the given cache, last filled at time 990, and the default settings
  but for three retries.\<close>

definition example_registry :: "string list \<Rightarrow> registry" where
  "example_registry ms =
     \<lparr>ttl_sec = 60, retries = 3, retry_delay_sec = 1, models = ms, last_fetch = 990\<rparr>"

text \<open>A world whose clock starts at 1000 and advances by one second per reading, with the
  given answers to listing and chat requests.\<close>

definition example_world :: "(nat \<Rightarrow> http_reply) \<Rightarrow> (nat \<Rightarrow> payload \<Rightarrow> http_reply) \<Rightarrow> world" where
  "example_world listing chat =
     \<lparr>clock = (\<lambda>n. 1000 + of_nat n), ticks = 0, models_api = listing, gets = 0,
      chat_api = chat, posted = [], stream_api = (\<lambda>p. Stream_failed),
      slept = [], printed = []\<rparr>"

definition listing_AB :: response where
  "listing_AB =
     \<lparr>status_code = 200,
      json_body = Some (JObj [(''object'', JStr ''list''),
        (''data'', JArr [JObj [(''id'', JStr ''A'')], JNum 5, JObj [(''name'', JStr ''x'')],
                        JObj [(''id'', JStr ''B''), (''object'', JStr ''model'')]])]),
      text_body = ''''\<rparr>"

definition listing_empty :: response where
  "listing_empty =
     \<lparr>status_code = 200,
      json_body = Some (JObj [(''object'', JStr ''list''), (''data'', JArr [])]),
      text_body = ''''\<rparr>"

definition upstream_down :: "nat \<Rightarrow> http_reply" where
  "upstream_down n = Failed"

definition upstream_lists :: "response \<Rightarrow> nat \<Rightarrow> http_reply" where
  "upstream_lists r n = Reply r"

definition down_then_lists :: "response \<Rightarrow> nat \<Rightarrow> http_reply" where
  "down_then_lists r n = (if n = 0 then Failed else Reply r)"

definition no_chat :: "nat \<Rightarrow> payload \<Rightarrow> http_reply" where
  "no_chat n p = Failed"

text \<open>The registry of a process that has never fetched the listing.\<close>

definition cold_registry :: registry where
  "cold_registry =
     \<lparr>ttl_sec = 60, retries = 3, retry_delay_sec = 1, models = [], last_fetch = 0\<rparr>"

text \<open>A chat request with one user message and the given \<^verbatim>\<open>"model"\<close> entry.\<close>

definition chat_payload :: "model_field \<Rightarrow> payload" where
  "chat_payload m =
     \<lparr>model = m,
      messages = Some (JArr [JObj [(''role'', JStr ''user''), (''content'', JStr ''hi'')]]),
      stream = None,
      other = []\<rparr>"

text \<open>An upstream that serves the loaded models and answers 404, in vLLM's format, for any
  other.\<close>

definition ok_response :: response where
  "ok_response =
     \<lparr>status_code = 200,
      json_body = Some (JObj [(''object'', JStr ''chat.completion'')]),
      text_body = ''''\<rparr>"

definition not_found_response :: response where
  "not_found_response =
     \<lparr>status_code = 404,
      json_body = Some (JObj [(''error'',
        JObj [(''message'', JStr ''The model does not exist.''), (''code'', JNum 404)])]),
      text_body = ''''\<rparr>"

definition chat_serving :: "string list \<Rightarrow> nat \<Rightarrow> payload \<Rightarrow> http_reply" where
  "chat_serving loaded n p =
     (case model p of
        Model m \<Rightarrow> if m \<in> set loaded then Reply ok_response else Reply not_found_response
      | _ \<Rightarrow> Reply not_found_response)"

text \<open>An environment with the default model \<open>D\<close> and the Japanese policy switched on.\<close>

definition example_env :: environ where
  "example_env = \<lparr>env_DEFAULT_MODEL = ''D'', env_FORCE_JA = ''1''\<rparr>"

text \<open>The payload \<^verbatim>\<open>chat_payload m\<close> after the policy has put its system message first.\<close>

definition policy_payload :: "model_field \<Rightarrow> payload" where
  "policy_payload m =
     (chat_payload m)\<lparr>messages := Some (JArr [ja_message,
        JObj [(''role'', JStr ''user''), (''content'', JStr ''hi'')]])\<rparr>"

text \<open>An upstream that answers the first chat request with the 404 of a missing model and
  is unreachable afterwards.\<close>

definition chat_not_found_then_down :: "nat \<Rightarrow> payload \<Rightarrow> http_reply" where
  "chat_not_found_then_down n p = (if n = 0 then Reply not_found_response else Failed)"

text \<open>An upstream that answers every chat request with a 404 whose \<^verbatim>\<open>"error"\<close> entry is a
  string.\<close>

definition no_route_response :: response where
  "no_route_response =
     \<lparr>status_code = 404,
      json_body = Some (JObj [(''error'', JStr ''no such route'')]),
      text_body = ''''\<rparr>"

definition chat_no_route :: "nat \<Rightarrow> payload \<Rightarrow> http_reply" where
  "chat_no_route n p = Reply no_route_response"

section \<open>Verification: the model listing\<close>

lemma id_values_comprehension: "id_values ms = map id_value (filter has_id ms)"
  by (induction ms rule: id_values.induct) (simp_all split: option.splits)

lemma id_values_chars: "id_values (map (\<lambda>c. JStr [c]) s) = []"
  by (induction s) simp_all

lemma id_values_keys: "id_values (map (\<lambda>kv. JStr (fst kv)) e) = []"
  by (induction e) simp_all

lemma extract_ids_object:
  "extract_ids (JObj kvs) =
     (case map_of kvs ''data'' of
        None \<Rightarrow> Inr []
      | Some d \<Rightarrow>
         (case d of
            JArr ms \<Rightarrow> Inr (map id_value (filter has_id ms))
          | JStr s \<Rightarrow> Inr []
          | JObj e \<Rightarrow> Inr []
          | _ \<Rightarrow> Inl TypeError))"
  by (simp add: extract_ids_def id_values_chars id_values_keys id_values_comprehension
      split: option.splits json.splits)

text \<open>
  Claim C10. When the answer to \<^verbatim>\<open>GET /v1/models\<close> is a success whose body parses to a
  JSON object, \<^verbatim>\<open>_fetch_models\<close> returns the \<^verbatim>\<open>"id"\<close> values of those elements of the
  \<^verbatim>\<open>"data"\<close> array that are objects containing an \<^verbatim>\<open>"id"\<close> key, in their order; the
  other elements are skipped, and a body without a \<^verbatim>\<open>"data"\<close> key gives the empty list
  and no error. (A \<^verbatim>\<open>"data"\<close> entry that is a string or an object also gives the empty
  list; \<^verbatim>\<open>null\<close>, a number or a boolean there raises \<^verbatim>\<open>TypeError\<close>.)
\<close>

theorem fetch_extracts_ids:
  assumes "is_success (status_code r)" and "json_body r = Some (JObj kvs)"
  shows "extract_ids (JObj kvs) =
     (case map_of kvs ''data'' of
        None \<Rightarrow> Inr []
      | Some d \<Rightarrow>
         (case d of
            JArr ms \<Rightarrow> Inr (map id_value (filter has_id ms))
          | JStr s \<Rightarrow> Inr []
          | JObj e \<Rightarrow> Inr []
          | _ \<Rightarrow> Inl TypeError))
   \<and> read_models (Reply r) =
     (case map_of kvs ''data'' of
        None \<Rightarrow> Inr []
      | Some d \<Rightarrow>
         (case d of
            JArr ms \<Rightarrow> Inr (map str_of (map id_value (filter has_id ms)))
          | JStr s \<Rightarrow> Inr []
          | JObj e \<Rightarrow> Inr []
          | _ \<Rightarrow> Inl TypeError))"
proof -
  have "read_models (Reply r) =
     (case map_of kvs ''data'' of
        None \<Rightarrow> Inr []
      | Some d \<Rightarrow>
         (case d of
            JArr ms \<Rightarrow> Inr (map str_of (map id_value (filter has_id ms)))
          | JStr s \<Rightarrow> Inr []
          | JObj e \<Rightarrow> Inr []
          | _ \<Rightarrow> Inl TypeError))"
    using assms
    by (simp add: read_models_def raise_for_status_def extract_ids_object
        split: option.splits json.splits)
  then show ?thesis using extract_ids_object by blast
qed

theorem fetch_extracts_ids_witness:
  "is_success (status_code listing_AB)
   \<and> extract_ids (the (json_body listing_AB)) = Inr [JStr ''A'', JStr ''B'']
   \<and> read_models (Reply listing_AB) = Inr [''A'', ''B'']"
proof -
  have s: "is_success (status_code listing_AB)"
    by (simp add: listing_AB_def is_success_def)
  have j: "json_body listing_AB = Some (JObj [(''object'', JStr ''list''),
        (''data'', JArr [JObj [(''id'', JStr ''A'')], JNum 5, JObj [(''name'', JStr ''x'')],
                        JObj [(''id'', JStr ''B''), (''object'', JStr ''model'')]])])"
    by (simp add: listing_AB_def)
  show ?thesis using s j fetch_extracts_ids [OF s j] by simp
qed

section \<open>Verification: refresh\<close>

lemma store_models_world:
  "gets (snd (store_models ids reg w)) = gets w"
  "models_api (snd (store_models ids reg w)) = models_api w"
  "clock (snd (store_models ids reg w)) = clock w"
  "chat_api (snd (store_models ids reg w)) = chat_api w"
  "posted (snd (store_models ids reg w)) = posted w"
  by (simp_all add: store_models_def time_time_def)

lemma is_fresh_frame:
  "models_api (snd (is_fresh reg w)) = models_api w"
  "gets (snd (is_fresh reg w)) = gets w"
  "clock (snd (is_fresh reg w)) = clock w"
  "chat_api (snd (is_fresh reg w)) = chat_api w"
  "posted (snd (is_fresh reg w)) = posted w"
  by (simp_all add: is_fresh_def time_time_def)

lemma fetch_loop_frame:
  "models_api (snd (fetch_loop force n le reg w)) = models_api w
   \<and> clock (snd (fetch_loop force n le reg w)) = clock w
   \<and> chat_api (snd (fetch_loop force n le reg w)) = chat_api w
   \<and> posted (snd (fetch_loop force n le reg w)) = posted w
   \<and> gets w \<le> gets (snd (fetch_loop force n le reg w))
   \<and> gets (snd (fetch_loop force n le reg w)) \<le> gets w + n"
proof (induction n arbitrary: le w)
  case 0
  show ?case by (simp add: print_warning_def split: option.splits)
next
  case (Suc n)
  show ?case
  proof (cases "read_models (models_api w (gets w))")
    case (Inl e)
    then show ?thesis
      using Suc [of "Some e"
          "(if force then sleep (retry_delay_sec reg) else id) (w\<lparr>gets := Suc (gets w)\<rparr>)"]
      by (auto simp: fetch_models_def sleep_def)
  next
    case (Inr ids)
    then show ?thesis
      by (simp add: fetch_models_def store_models_def time_time_def)
  qed
qed

text \<open>A loop in which every request made fails leaves the registry as it was.\<close>

lemma fetch_loop_all_fail:
  assumes "\<forall>k. gets w \<le> k \<and> k < gets (snd (fetch_loop force n le reg w))
             \<longrightarrow> isl (read_models (models_api w k))"
  shows "fst (fetch_loop force n le reg w) = reg"
  using assms
proof (induction n arbitrary: le w)
  case 0
  show ?case by (simp split: option.splits)
next
  case (Suc n)
  show ?case
  proof (cases "read_models (models_api w (gets w))")
    case (Inl e)
    let ?w1 = "(if force then sleep (retry_delay_sec reg) else id) (w\<lparr>gets := Suc (gets w)\<rparr>)"
    have step: "fetch_loop force (Suc n) le reg w = fetch_loop force n (Some e) reg ?w1"
      using Inl by (simp add: fetch_models_def)
    have api: "models_api ?w1 = models_api w" and g: "gets ?w1 = Suc (gets w)"
      by (simp_all add: sleep_def)
    have "\<forall>k. gets ?w1 \<le> k \<and> k < gets (snd (fetch_loop force n (Some e) reg ?w1))
             \<longrightarrow> isl (read_models (models_api ?w1 k))"
      using Suc.prems unfolding step api g by auto
    from Suc.IH [OF this] show ?thesis unfolding step .
  next
    case (Inr ids)
    have "gets (snd (fetch_loop force (Suc n) le reg w)) = Suc (gets w)"
      using Inr by (simp add: fetch_models_def store_models_world)
    with Suc.prems have "isl (read_models (models_api w (gets w)))"
      by auto
    with Inr show ?thesis by simp
  qed
qed

text \<open>When all \<open>n\<close> requests fail, all \<open>n\<close> are made.\<close>

lemma fetch_loop_all_fail_count:
  assumes "\<forall>i<n. isl (read_models (models_api w (gets w + i)))"
  shows "gets (snd (fetch_loop force n le reg w)) = gets w + n"
  using assms
proof (induction n arbitrary: le w)
  case 0
  show ?case by (simp add: print_warning_def split: option.splits)
next
  case (Suc n)
  from Suc.prems have "isl (read_models (models_api w (gets w)))"
    by (metis add.right_neutral zero_less_Suc)
  then obtain e where Inl: "read_models (models_api w (gets w)) = Inl e"
    by (cases "read_models (models_api w (gets w))") auto
  let ?w1 = "(if force then sleep (retry_delay_sec reg) else id) (w\<lparr>gets := Suc (gets w)\<rparr>)"
  have step: "fetch_loop force (Suc n) le reg w = fetch_loop force n (Some e) reg ?w1"
    using Inl by (simp add: fetch_models_def)
  have api: "models_api ?w1 = models_api w" and g: "gets ?w1 = Suc (gets w)"
    by (simp_all add: sleep_def)
  have "\<forall>i<n. isl (read_models (models_api ?w1 (gets ?w1 + i)))"
    using Suc.prems unfolding api g by (metis Suc_less_eq add_Suc_shift)
  from Suc.IH [OF this] show ?case unfolding step g by simp
qed

text \<open>
  A listing fetched by the loop ends the loop: it was the last request, a non-empty one is
  stored with the time read then, an empty one changes nothing.
\<close>

lemma fetch_loop_success:
  assumes "gets w \<le> k" and "k < gets (snd (fetch_loop force n le reg w))"
    and "read_models (models_api w k) = Inr ids"
  shows "fst (fetch_loop force n le reg w) =
      (if ids \<noteq> [] then reg\<lparr>models := ids, last_fetch := clock w (ticks w)\<rparr> else reg)
     \<and> gets (snd (fetch_loop force n le reg w)) = Suc k
     \<and> ticks (snd (fetch_loop force n le reg w)) = (if ids \<noteq> [] then Suc (ticks w) else ticks w)"
  using assms
proof (induction n arbitrary: le w)
  case 0
  then show ?case by (simp add: print_warning_def split: option.splits)
next
  case (Suc n)
  show ?case
  proof (cases "read_models (models_api w (gets w))")
    case (Inl e)
    let ?w1 = "(if force then sleep (retry_delay_sec reg) else id) (w\<lparr>gets := Suc (gets w)\<rparr>)"
    have step: "fetch_loop force (Suc n) le reg w = fetch_loop force n (Some e) reg ?w1"
      using Inl by (simp add: fetch_models_def)
    have frame: "models_api ?w1 = models_api w" "gets ?w1 = Suc (gets w)"
      "clock ?w1 = clock w" "ticks ?w1 = ticks w"
      by (simp_all add: sleep_def)
    have "k \<noteq> gets w" using Inl Suc.prems(3) by auto
    then have 1: "gets ?w1 \<le> k" using Suc.prems(1) frame by simp
    have 2: "k < gets (snd (fetch_loop force n (Some e) reg ?w1))"
      using Suc.prems(2) step by simp
    have 3: "read_models (models_api ?w1 k) = Inr ids"
      using Suc.prems(3) frame by simp
    from Suc.IH [OF 1 2 3] show ?thesis unfolding step frame .
  next
    case (Inr ids0)
    have g: "gets (snd (fetch_loop force (Suc n) le reg w)) = Suc (gets w)"
      using Inr by (simp add: fetch_models_def store_models_world)
    with Suc.prems have "k = gets w" by simp
    with Inr Suc.prems(3) have "ids0 = ids" by simp
    then show ?thesis using Inr \<open>k = gets w\<close>
      by (simp add: fetch_models_def store_models_def time_time_def)
  qed
qed

text \<open>
  The three ways \<^verbatim>\<open>refresh\<close> ends: fresh at the first test, fresh at the second, or
  through the loop, entered in a world \<open>w0\<close> that differs from \<open>w\<close> in the clock readings
  made.
\<close>

lemma refresh_cases:
  "refresh force reg w = (Inr (), reg, snd (is_fresh reg w)) \<and> \<not> force
   \<or> refresh force reg w = (Inr (), reg, snd (is_fresh reg (snd (is_fresh reg w)))) \<and> \<not> force
   \<or> (\<exists>w0. refresh force reg w = (Inr (), fetch_loop force (attempts force reg) None reg w0)
        \<and> models_api w0 = models_api w \<and> gets w0 = gets w \<and> clock w0 = clock w
        \<and> chat_api w0 = chat_api w \<and> posted w0 = posted w)"
proof (cases force)
  case True
  then have "refresh force reg w = (Inr (), fetch_loop force (attempts force reg) None reg w)"
    by (simp add: refresh_def)
  then show ?thesis by blast
next
  case False
  let ?w2 = "snd (is_fresh reg (snd (is_fresh reg w)))"
  have "models_api ?w2 = models_api w \<and> gets ?w2 = gets w \<and> clock ?w2 = clock w
        \<and> chat_api ?w2 = chat_api w \<and> posted ?w2 = posted w"
    by (simp add: is_fresh_frame)
  then show ?thesis using False
    by (auto simp add: refresh_def case_prod_beta)
qed

lemma refresh_returns: "fst (refresh force reg w) = Inr ()"
  by (simp add: refresh_def case_prod_beta)

lemma refresh_frame:
  "models_api (snd (snd (refresh force reg w))) = models_api w
   \<and> clock (snd (snd (refresh force reg w))) = clock w
   \<and> chat_api (snd (snd (refresh force reg w))) = chat_api w
   \<and> posted (snd (snd (refresh force reg w))) = posted w
   \<and> gets w \<le> gets (snd (snd (refresh force reg w)))"
proof -
  consider
    (a) "refresh force reg w = (Inr (), reg, snd (is_fresh reg w))"
  | (b) "refresh force reg w = (Inr (), reg, snd (is_fresh reg (snd (is_fresh reg w))))"
  | (c) w0 where "refresh force reg w = (Inr (), fetch_loop force (attempts force reg) None reg w0)"
      "models_api w0 = models_api w" "gets w0 = gets w" "clock w0 = clock w"
      "chat_api w0 = chat_api w" "posted w0 = posted w"
    using refresh_cases [of force reg w] by blast
  then show ?thesis
  proof cases
    case a then show ?thesis by (simp add: is_fresh_frame)
  next
    case b then show ?thesis by (simp add: is_fresh_frame)
  next
    case c
    from fetch_loop_frame [of force "attempts force reg" None reg w0] c
    show ?thesis by simp
  qed
qed

text \<open>
  Claim C6. \<^verbatim>\<open>refresh(force)\<close> returns normally whatever the upstream answers; and when
  every request it made for the listing failed, the registry, so \<^verbatim>\<open>_models\<close> and
  \<^verbatim>\<open>_last_fetch\<close>, is exactly as before the call. The requests of the call are those
  numbered from \<open>gets w\<close> up to the count afterwards.
\<close>

theorem refresh_never_raises:
  "fst (refresh force reg w) = Inr ()
   \<and> ((\<forall>k. gets w \<le> k \<and> k < gets (snd (snd (refresh force reg w)))
          \<longrightarrow> isl (read_models (models_api w k)))
        \<longrightarrow> fst (snd (refresh force reg w)) = reg)"
proof -
  have "fst (snd (refresh force reg w)) = reg"
    if fail: "\<forall>k. gets w \<le> k \<and> k < gets (snd (snd (refresh force reg w)))
          \<longrightarrow> isl (read_models (models_api w k))"
  proof -
    consider
      (a) "refresh force reg w = (Inr (), reg, snd (is_fresh reg w))"
    | (b) "refresh force reg w = (Inr (), reg, snd (is_fresh reg (snd (is_fresh reg w))))"
    | (c) w0 where "refresh force reg w = (Inr (), fetch_loop force (attempts force reg) None reg w0)"
        "models_api w0 = models_api w" "gets w0 = gets w"
      using refresh_cases [of force reg w] by blast
    then show ?thesis
    proof cases
      case a then show ?thesis by simp
    next
      case b then show ?thesis by simp
    next
      case c
      have "\<forall>k. gets w0 \<le> k \<and> k < gets (snd (fetch_loop force (attempts force reg) None reg w0))
             \<longrightarrow> isl (read_models (models_api w0 k))"
        using fail unfolding c by simp
      from fetch_loop_all_fail [OF this] show ?thesis unfolding c by simp
    qed
  qed
  with refresh_returns show ?thesis by blast
qed

lemmas refresh_eval =
  refresh_def attempts_def fetch_models_def read_models_def raise_for_status_def
  is_success_def extract_ids_def store_models_def time_time_def is_fresh_def sleep_def
  print_warning_def example_registry_def example_world_def listing_AB_def listing_empty_def
  upstream_down_def upstream_lists_def down_then_lists_def no_chat_def eval_nat_numeral

text \<open>With the upstream down, a forced refresh of a registry that allows three attempts
  makes three requests, reports the failure and keeps the cache.\<close>

theorem refresh_never_raises_witness:
  "fst (refresh True (example_registry [''A'']) (example_world upstream_down no_chat)) = Inr ()
   \<and> gets (snd (snd (refresh True (example_registry [''A''])
                       (example_world upstream_down no_chat)))) = 3
   \<and> fst (snd (refresh True (example_registry [''A'']) (example_world upstream_down no_chat)))
       = example_registry [''A'']"
proof -
  let ?reg = "example_registry [''A'']"
  let ?w = "example_world upstream_down no_chat"
  have g: "gets (snd (snd (refresh True ?reg ?w))) = 3"
    by (simp add: refresh_eval)
  have "\<forall>k. gets ?w \<le> k \<and> k < gets (snd (snd (refresh True ?reg ?w)))
          \<longrightarrow> isl (read_models (models_api ?w k))"
    by (simp add: read_models_def example_world_def upstream_down_def)
  with refresh_never_raises [of True ?reg ?w] g show ?thesis by blast
qed

text \<open>
  Claim C4, as stated, fails: a fetch that succeeds with an empty listing leaves
  \<^verbatim>\<open>_models\<close> and \<^verbatim>\<open>_last_fetch\<close> untouched (the \<^verbatim>\<open>if ids:\<close> guard). Here the cache holds
  \<open>A\<close>, the upstream answers 200 with an empty \<^verbatim>\<open>"data"\<close> array, and after the forced
  refresh (one request) the cache still holds \<open>A\<close> and the time stamp is the old one.
\<close>

theorem empty_listing_not_stored:
  "read_models (models_api (example_world (upstream_lists listing_empty) no_chat) 0) = Inr []
   \<and> gets (snd (snd (refresh True (example_registry [''A''])
                       (example_world (upstream_lists listing_empty) no_chat)))) = 1
   \<and> models (fst (snd (refresh True (example_registry [''A''])
                       (example_world (upstream_lists listing_empty) no_chat)))) = [''A'']
   \<and> last_fetch (fst (snd (refresh True (example_registry [''A''])
                       (example_world (upstream_lists listing_empty) no_chat)))) = 990"
  by (simp add: refresh_eval)

text \<open>
  Claim C4, amended. Every fetch of the listing that succeeds during \<^verbatim>\<open>refresh\<close> is the
  last request of that call, whatever is left of the retry budget and also when the
  listing is empty. A non-empty listing replaces \<^verbatim>\<open>_models\<close> by exactly the fetched ids,
  in their order, and sets \<^verbatim>\<open>_last_fetch\<close> to the time read at that moment (the last
  clock reading of the call); an empty listing leaves the registry unchanged.
\<close>

theorem refresh_stores_fetched_listing:
  assumes "gets w \<le> k" and "k < gets (snd (snd (refresh force reg w)))"
    and "read_models (models_api w k) = Inr ids"
  shows "gets (snd (snd (refresh force reg w))) = Suc k
     \<and> fst (snd (refresh force reg w)) =
         (if ids \<noteq> []
          then reg\<lparr>models := ids,
                   last_fetch := clock w (ticks (snd (snd (refresh force reg w))) - 1)\<rparr>
          else reg)"
proof -
  consider
    (a) "refresh force reg w = (Inr (), reg, snd (is_fresh reg w))"
  | (b) "refresh force reg w = (Inr (), reg, snd (is_fresh reg (snd (is_fresh reg w))))"
  | (c) w0 where "refresh force reg w = (Inr (), fetch_loop force (attempts force reg) None reg w0)"
      "models_api w0 = models_api w" "gets w0 = gets w" "clock w0 = clock w"
    using refresh_cases [of force reg w] by blast
  then show ?thesis
  proof cases
    case a
    with assms(1,2) show ?thesis by (simp add: is_fresh_frame)
  next
    case b
    with assms(1,2) show ?thesis by (simp add: is_fresh_frame)
  next
    case c
    have 1: "gets w0 \<le> k" using assms(1) c by simp
    have 2: "k < gets (snd (fetch_loop force (attempts force reg) None reg w0))"
      using assms(2) c by simp
    have 3: "read_models (models_api w0 k) = Inr ids" using assms(3) c by simp
    from fetch_loop_success [OF 1 2 3] show ?thesis unfolding c by (simp add: c)
  qed
qed

text \<open>The first request fails, the second brings the listing \<open>A\<close>, \<open>B\<close>: the third attempt
  is not made, and the cache \<open>old\<close> is replaced.\<close>

theorem refresh_stores_fetched_listing_witness:
  "gets (example_world (down_then_lists listing_AB) no_chat) \<le> 1
   \<and> read_models (models_api (example_world (down_then_lists listing_AB) no_chat) 1)
       = Inr [''A'', ''B'']
   \<and> gets (snd (snd (refresh True (example_registry [''old''])
                       (example_world (down_then_lists listing_AB) no_chat)))) = 2
   \<and> fst (snd (refresh True (example_registry [''old''])
                       (example_world (down_then_lists listing_AB) no_chat)))
       = (example_registry [''old''])\<lparr>models := [''A'', ''B''], last_fetch := 1000\<rparr>"
proof -
  let ?reg = "example_registry [''old'']"
  let ?w = "example_world (down_then_lists listing_AB) no_chat"
  have 1: "gets ?w \<le> 1" by (simp add: example_world_def)
  have 2: "1 < gets (snd (snd (refresh True ?reg ?w)))" by (simp add: refresh_eval)
  have 3: "read_models (models_api ?w 1) = Inr [''A'', ''B'']" by (simp add: refresh_eval)
  have 4: "ticks (snd (snd (refresh True ?reg ?w))) = 1" by (simp add: refresh_eval)
  have 5: "clock ?w 0 = 1000" by (simp add: example_world_def)
  from refresh_stores_fetched_listing [OF 1 2 3] 1 3 4 5 show ?thesis by simp
qed

section \<open>Verification: resolution\<close>

lemma candidates_spec:
  "candidates requested default_model = spec_candidates requested default_model"
  by (cases requested; cases default_model)
     (simp_all add: candidates_def spec_candidates_def present_def)

lemma first_known_find: "first_known cs ms = find (\<lambda>c. c \<in> set ms) cs"
  by (induction cs) simp_all

lemma return_if_spec:
  "return_if requested (return_if default_model []) =
     (if present requested then the requested
      else if present default_model then the default_model else [])"
  by (cases requested; cases default_model) (simp_all add: present_def)

lemma pick_model_spec:
  "pick_model ms requested default_model = spec_resolve ms requested default_model"
  by (simp add: pick_model_def spec_resolve_def candidates_spec first_known_find return_if_spec
      split: option.splits list.splits)

text \<open>\<^verbatim>\<open>resolve_model\<close> is the non-forced refresh followed by the choice on the snapshot.\<close>

lemma resolve_model_unfold:
  "resolve_model requested default_model reg w =
     (Inr (pick_model (models (fst (snd (refresh False reg w)))) requested default_model),
      snd (refresh False reg w))"
  by (simp add: resolve_model_def refresh_def case_prod_beta)

text \<open>
  Claim C1. \<^verbatim>\<open>resolve_model(requested, default)\<close> runs the non-forced refresh and
  returns, for the snapshot of the cache taken after it, what the specification says:
  the first of the candidates \<open>requested\<close> (if present), \<open>default\<close> (if present) that is
  a member of the snapshot; else the first element of a non-empty snapshot; else
  \<open>requested\<close> if present, else \<open>default\<close> if present, else the empty string. The six
  examples of the specification follow (\<open>pick_model\<close> is the code after the snapshot).
\<close>

theorem resolve_model_follows_spec:
  "fst (resolve_model requested default_model reg w) =
      Inr (spec_resolve (models (fst (snd (refresh False reg w)))) requested default_model)
   \<and> snd (resolve_model requested default_model reg w) = snd (refresh False reg w)
   \<and> pick_model [''A'', ''B''] (Some ''B'') (Some ''A'') = ''B''
   \<and> pick_model [''A'', ''B''] (Some ''C'') (Some ''A'') = ''A''
   \<and> pick_model [''A'', ''B''] (Some ''C'') (Some ''D'') = ''A''
   \<and> pick_model [] (Some ''C'') (Some ''D'') = ''C''
   \<and> pick_model [] None (Some ''D'') = ''D''
   \<and> pick_model [] None None = ''''"
proof -
  have general: "fst (resolve_model requested default_model reg w) =
      Inr (spec_resolve (models (fst (snd (refresh False reg w)))) requested default_model)
   \<and> snd (resolve_model requested default_model reg w) = snd (refresh False reg w)"
    by (simp add: resolve_model_unfold pick_model_spec)
  have examples: "pick_model [''A'', ''B''] (Some ''B'') (Some ''A'') = ''B''
   \<and> pick_model [''A'', ''B''] (Some ''C'') (Some ''A'') = ''A''
   \<and> pick_model [''A'', ''B''] (Some ''C'') (Some ''D'') = ''A''
   \<and> pick_model [] (Some ''C'') (Some ''D'') = ''C''
   \<and> pick_model [] None (Some ''D'') = ''D''
   \<and> pick_model [] None None = ''''"
    by (simp add: pick_model_def candidates_def)
  from general examples show ?thesis by blast
qed

text \<open>A fresh cache \<open>A\<close>, \<open>B\<close> is not refreshed, and \<open>C\<close> with default \<open>D\<close> resolves to
  \<open>A\<close>; with the upstream down and an empty cache it resolves to \<open>C\<close>.\<close>

theorem resolve_model_follows_spec_witness:
  "fst (resolve_model (Some ''C'') (Some ''D'') (example_registry [''A'', ''B''])
          (example_world upstream_down no_chat)) = Inr ''A''
   \<and> fst (resolve_model (Some ''C'') (Some ''D'') ((example_registry [])\<lparr>last_fetch := 0\<rparr>)
          (example_world upstream_down no_chat)) = Inr ''C''"
proof -
  have fresh: "models (fst (snd (refresh False (example_registry [''A'', ''B''])
                  (example_world upstream_down no_chat)))) = [''A'', ''B'']"
    by (simp add: refresh_eval)
  have stale: "models (fst (snd (refresh False ((example_registry [])\<lparr>last_fetch := 0\<rparr>)
                  (example_world upstream_down no_chat)))) = []"
    by (simp add: refresh_eval)
  have 1: "spec_resolve [''A'', ''B''] (Some ''C'') (Some ''D'') = ''A''"
    by (simp add: spec_resolve_def spec_candidates_def present_def)
  have 2: "spec_resolve [] (Some ''C'') (Some ''D'') = ''C''"
    by (simp add: spec_resolve_def spec_candidates_def present_def)
  from resolve_model_follows_spec [of "Some ''C''" "Some ''D''" "example_registry [''A'', ''B'']"
      "example_world upstream_down no_chat"]
    resolve_model_follows_spec [of "Some ''C''" "Some ''D''"
      "(example_registry [])\<lparr>last_fetch := 0\<rparr>" "example_world upstream_down no_chat"]
    fresh stale 1 2
  show ?thesis by simp
qed

lemma first_known_member: "first_known cs ms = Some c \<Longrightarrow> c \<in> set cs \<and> c \<in> set ms"
  by (induction cs) (auto split: if_splits)

lemma first_known_None: "first_known cs ms = None \<longleftrightarrow> set cs \<inter> set ms = {}"
  by (induction cs) auto

lemma set_candidates:
  "set (candidates requested default_model) =
     {c. c \<noteq> [] \<and> (requested = Some c \<or> default_model = Some c)}"
  by (cases requested; cases default_model) (auto simp: candidates_def)

lemma pick_model_empty_iff:
  "pick_model ms requested default_model = [] \<longleftrightarrow>
      (ms = [] \<and> \<not> present requested \<and> \<not> present default_model)
      \<or> (ms \<noteq> [] \<and> hd ms = [] \<and> set (candidates requested default_model) \<inter> set ms = {})"
proof -
  let ?r = "pick_model ms requested default_model"
  let ?cs = "candidates requested default_model"
  have nonempty: "c \<noteq> []" if "c \<in> set ?cs" for c
    using that by (simp add: set_candidates)
  show ?thesis
  proof (cases "first_known ?cs ms")
    case (Some c)
    then have "c \<in> set ?cs" "c \<in> set ms" using first_known_member by blast+
    moreover have "?r = c" using Some by (simp add: pick_model_def)
    ultimately show ?thesis using nonempty [of c] by auto
  next
    case None
    then have dis: "set ?cs \<inter> set ms = {}" by (simp add: first_known_None)
    show ?thesis
    proof (cases ms)
      case Nil
      then show ?thesis using None
        by (cases requested; cases default_model) (auto simp: pick_model_def present_def)
    next
      case (Cons m rest)
      then show ?thesis using None dis by (simp add: pick_model_def)
    qed
  qed
qed

lemma pick_model_origin:
  "requested = Some (pick_model ms requested default_model)
   \<or> default_model = Some (pick_model ms requested default_model)
   \<or> pick_model ms requested default_model \<in> set ms
   \<or> pick_model ms requested default_model = []"
proof (cases "first_known (candidates requested default_model) ms")
  case (Some c)
  then have "c \<in> set ms" using first_known_member by blast
  moreover have "pick_model ms requested default_model = c"
    using Some by (simp add: pick_model_def)
  ultimately show ?thesis by simp
next
  case None
  then show ?thesis
    by (cases ms; cases requested; cases default_model) (auto simp: pick_model_def)
qed

text \<open>
  Claim C9, as stated, fails: the cache is fresh and holds one id, the empty string;
  \<open>C\<close> with default \<open>D\<close> resolves to the empty string, although both candidates are
  present and the snapshot is not empty.
\<close>

theorem empty_id_resolves_to_empty:
  "fst (resolve_model (Some ''C'') (Some ''D'') (example_registry [''''])
          (example_world upstream_down no_chat)) = Inr ''''
   \<and> models (fst (snd (resolve_model (Some ''C'') (Some ''D'') (example_registry [''''])
          (example_world upstream_down no_chat)))) = ['''']"
  by (simp add: resolve_model_def pick_model_def candidates_def refresh_eval)

text \<open>
  Claim C9, amended. The value \<open>r\<close> that \<^verbatim>\<open>resolve_model\<close> returns for the snapshot \<open>ms\<close>
  is the requested string, the default string, an element of the snapshot, or the empty
  string. It is the empty string exactly when the snapshot is empty and both \<open>requested\<close>
  and \<open>default\<close> are absent, or when no present candidate is in the snapshot and the
  first element of the snapshot is itself the empty string. So when no cached id is the
  empty string, \<open>r\<close> is empty exactly when the snapshot is empty and both are absent.
\<close>

theorem resolve_model_result:
  assumes "resolve_model requested default_model reg w = (res, reg1, w1)"
  shows "res = Inr (pick_model (models reg1) requested default_model)
   \<and> (requested = Some (pick_model (models reg1) requested default_model)
       \<or> default_model = Some (pick_model (models reg1) requested default_model)
       \<or> pick_model (models reg1) requested default_model \<in> set (models reg1)
       \<or> pick_model (models reg1) requested default_model = [])
   \<and> (pick_model (models reg1) requested default_model = [] \<longleftrightarrow>
        (models reg1 = [] \<and> \<not> present requested \<and> \<not> present default_model)
        \<or> (models reg1 \<noteq> [] \<and> hd (models reg1) = []
            \<and> set (spec_candidates requested default_model) \<inter> set (models reg1) = {}))
   \<and> ([] \<notin> set (models reg1) \<longrightarrow>
        (pick_model (models reg1) requested default_model = [] \<longleftrightarrow>
           models reg1 = [] \<and> \<not> present requested \<and> \<not> present default_model))"
proof -
  let ?ms = "models reg1"
  have res: "res = Inr (pick_model ?ms requested default_model)"
    using assms by (auto simp: resolve_model_unfold)
  have a: "pick_model ?ms requested default_model = [] \<longleftrightarrow>
        (?ms = [] \<and> \<not> present requested \<and> \<not> present default_model)
        \<or> (?ms \<noteq> [] \<and> hd ?ms = []
            \<and> set (spec_candidates requested default_model) \<inter> set ?ms = {})"
    using pick_model_empty_iff [of ?ms requested default_model]
    by (simp add: candidates_spec)
  have c: "pick_model ?ms requested default_model = [] \<longleftrightarrow>
           ?ms = [] \<and> \<not> present requested \<and> \<not> present default_model"
    if "[] \<notin> set ?ms"
  proof -
    have "hd ?ms \<noteq> []" if "?ms \<noteq> []"
      using that \<open>[] \<notin> set ?ms\<close> by (cases ?ms) auto
    then show ?thesis using a by blast
  qed
  from res a c pick_model_origin [of requested ?ms default_model] show ?thesis by blast
qed

text \<open>A fresh cache \<open>A\<close>, \<open>B\<close>: the unknown \<open>C\<close> with an absent default resolves to the
  cached \<open>A\<close>, which is not empty.\<close>

theorem resolve_model_result_witness:
  "[] \<notin> set (models (example_registry [''A'', ''B'']))
   \<and> fst (resolve_model (Some ''C'') None (example_registry [''A'', ''B''])
          (example_world upstream_down no_chat)) = Inr ''A''
   \<and> ''A'' \<in> set (models (example_registry [''A'', ''B'']))"
proof -
  let ?reg = "example_registry [''A'', ''B'']"
  let ?w = "example_world upstream_down no_chat"
  let ?out = "resolve_model (Some ''C'') None ?reg ?w"
  have reg1: "fst (snd ?out) = ?reg"
    by (simp add: resolve_model_def refresh_eval)
  have pick: "pick_model (models ?reg) (Some ''C'') None = ''A''"
    by (simp add: pick_model_def candidates_def example_registry_def)
  have ms: "[] \<notin> set (models ?reg)" "''A'' \<in> set (models ?reg)"
    by (simp_all add: example_registry_def)
  have "?out = (fst ?out, fst (snd ?out), snd (snd ?out))" by simp
  from resolve_model_result [OF this] have "fst ?out = Inr (pick_model (models ?reg) (Some ''C'') None)"
    unfolding reg1 by blast
  with pick ms show ?thesis by simp
qed

section \<open>Verification: the streaming proxy\<close>

lemma yielded_relay_loop: "yielded (relay_loop chunks e) = filter (\<lambda>c. c \<noteq> []) chunks"
  by (induction chunks e rule: relay_loop.induct) simp_all

lemma received_relay_loop: "received (relay_loop chunks e) = chunks"
  by (induction chunks e rule: relay_loop.induct) simp_all

lemma unbuffered_Recv_relay_loop:
  "unbuffered (Recv c # relay_loop chunks e) = unbuffered (relay_loop chunks e)"
  by (cases chunks; cases e) simp_all

lemma unbuffered_relay_loop: "unbuffered (relay_loop chunks e)"
proof (induction chunks)
  case Nil
  show ?case by (cases e) simp_all
next
  case (Cons chunk rest)
  show ?case
  proof (cases "chunk = []")
    case True
    then have "relay_loop (chunk # rest) e = Recv chunk # relay_loop rest e" by simp
    then show ?thesis using Cons by (simp only: unbuffered_Recv_relay_loop)
  next
    case False
    then have "relay_loop (chunk # rest) e = Recv chunk # Yield chunk # relay_loop rest e"
      by simp
    then show ?thesis using Cons by simp
  qed
qed

lemma raise_relay_loop: "Raise TransportError \<in> set (relay_loop chunks e) \<longleftrightarrow> e = Dropped"
  by (induction chunks e rule: relay_loop.induct) auto

text \<open>
  Claim C7. On a 2xx answer of the upstream that delivers the chunks \<open>c1, ..., cn\<close>, the
  chunks that \<^verbatim>\<open>stream_openai_sse\<close> yields are exactly the non-empty ones among them, in
  their order and unchanged; the empty ones are dropped and no other chunk (no
  \<^verbatim>\<open>[DONE]\<close> marker) is yielded. The generator reads every chunk of the upstream, and
  each chunk it yields is the one it has just read: nothing is held back. It ends with an
  exception exactly when the upstream connection drops.
\<close>

theorem relay_passes_chunks_through:
  assumes "is_success status"
  shows "yielded (stream_openai_sse (Stream status chunks e)) = filter (\<lambda>c. c \<noteq> []) chunks
    \<and> received (stream_openai_sse (Stream status chunks e)) = chunks
    \<and> unbuffered (stream_openai_sse (Stream status chunks e))
    \<and> (Raise TransportError \<in> set (stream_openai_sse (Stream status chunks e))
         \<longleftrightarrow> e = Dropped)"
  using assms
  by (simp add: stream_openai_sse_def yielded_relay_loop received_relay_loop
      unbuffered_relay_loop raise_relay_loop)

theorem relay_passes_chunks_through_witness:
  "is_success 200
   \<and> yielded (stream_openai_sse (Stream 200 [''data: a'', [], ''data: b'', []] Closed))
      = [''data: a'', ''data: b'']"
proof -
  have s: "is_success 200" by (simp add: is_success_def)
  from relay_passes_chunks_through [OF s, of "[''data: a'', [], ''data: b'', []]" Closed] s
  show ?thesis by simp
qed

section \<open>Verification: the Resolve step of the router\<close>

text \<open>
  Claim C8, as stated, fails: with \<^verbatim>\<open>DEFAULT_MODEL\<close> set to the empty string, no listing
  ever fetched and the upstream down, a payload that arrives without a \<^verbatim>\<open>"model"\<close> entry
  resolves to the empty string, and leaves the Resolve step with the entry
  \<^verbatim>\<open>"model": ""\<close> that \<^verbatim>\<open>setdefault\<close> stored.
\<close>

theorem setdefault_adds_model:
  "fst (resolve_step '''' (chat_payload Absent) cold_registry
          (example_world upstream_down no_chat))
     = Inr ((chat_payload Absent)\<lparr>model := Model ''''\<rparr>)
   \<and> model (chat_payload Absent) = Absent"
  by (simp add: resolve_step_def resolve_model_def pick_model_def candidates_def
      cold_registry_def chat_payload_def refresh_eval)

text \<open>
  Claim C8, amended. The Resolve step changes the \<^verbatim>\<open>"model"\<close> entry of the payload and
  nothing else. If the resolved model is not empty, the entry is set to it. Otherwise a
  payload that arrived with the entry (a string or \<^verbatim>\<open>null\<close>) keeps its value, and a
  payload that arrived without it gets the entry, holding the configured default model.
\<close>

theorem resolve_step_payload:
  assumes "resolve_step default_model p reg w = (res, reg1, w1)"
  shows "res = Inr (p\<lparr>model :=
            (if pick_model (models reg1) (get_model (model p)) (Some default_model) \<noteq> []
             then Model (pick_model (models reg1) (get_model (model p)) (Some default_model))
             else (case model p of
                     Absent \<Rightarrow> Model default_model
                   | Null \<Rightarrow> Null
                   | Model s \<Rightarrow> Model s))\<rparr>)
     \<and> fst (resolve_model (get_model (model p)) (Some default_model) reg w)
         = Inr (pick_model (models reg1) (get_model (model p)) (Some default_model))"
  using assms
  by (cases "model p") (auto simp: resolve_step_def resolve_model_unfold)

text \<open>The fresh cache holds \<open>A\<close> and \<open>B\<close>: a request for \<open>C\<close> with default \<open>D\<close> leaves the
  step asking for \<open>A\<close>.\<close>

theorem resolve_step_payload_witness:
  "fst (resolve_step ''D'' (chat_payload (Model ''C'')) (example_registry [''A'', ''B''])
          (example_world upstream_down no_chat))
     = Inr ((chat_payload (Model ''C''))\<lparr>model := Model ''A''\<rparr>)"
proof -
  let ?reg = "example_registry [''A'', ''B'']"
  let ?out = "resolve_step ''D'' (chat_payload (Model ''C'')) ?reg
                (example_world upstream_down no_chat)"
  have reg1: "fst (snd ?out) = ?reg"
    by (simp add: resolve_step_def resolve_model_def refresh_eval)
  have pick: "pick_model (models ?reg) (get_model (model (chat_payload (Model ''C''))))
                (Some ''D'') = ''A''"
    by (simp add: pick_model_def candidates_def example_registry_def chat_payload_def)
  have "?out = (fst ?out, fst (snd ?out), snd (snd ?out))" by simp
  from resolve_step_payload [OF this] show ?thesis
    unfolding reg1 pick by simp
qed

section \<open>Verification: the retry decision after a 404\<close>

lemma starts_with_prefix: "starts_with pat s = prefix pat s"
  by (induction pat s rule: starts_with.induct) simp_all

lemma py_in_sublist: "py_in pat s = sublist pat s"
  by (induction s) (simp_all add: starts_with_prefix sublist_Cons_right)

lemma sublist_map_iff: "sublist pat (map f s) \<longleftrightarrow> (\<exists>u. sublist u s \<and> map f u = pat)"
proof
  assume "sublist pat (map f s)"
  then obtain ps ss where "map f s = ps @ pat @ ss" by (auto simp: sublist_def)
  then have "\<exists>us vs. s = us @ vs \<and> ps = map f us \<and> pat @ ss = map f vs"
    by (simp add: map_eq_append_conv)
  then obtain a bc where 1: "s = a @ bc" and 2: "pat @ ss = map f bc" by blast
  from 2 have "\<exists>us vs. bc = us @ vs \<and> pat = map f us \<and> ss = map f vs"
    by (simp add: append_eq_map_conv)
  then obtain b c where "bc = b @ c" "map f b = pat" by auto
  with 1 have "sublist b s" "map f b = pat" by (auto simp: sublist_def)
  then show "\<exists>u. sublist u s \<and> map f u = pat" by blast
next
  assume "\<exists>u. sublist u s \<and> map f u = pat"
  then show "sublist pat (map f s)" using map_mono_sublist by blast
qed

lemma lower_does_not_exist: "lower ''does not exist'' = ''does not exist''"
  by (simp add: lower_def lower_char_def)

lemma lower_not_found: "lower ''not found'' = ''not found''"
  by (simp add: lower_def lower_char_def)

text \<open>Searching a lower-case pattern in the lowered message is searching it in the
  message without regard to case.\<close>

lemma py_in_lower: "lower pat = pat \<Longrightarrow> py_in pat (lower s) = contains_ci pat s"
  by (simp add: py_in_sublist contains_ci_def lower_def sublist_map_iff)

text \<open>
  On a body whose \<^verbatim>\<open>"error"\<close> and \<^verbatim>\<open>"message"\<close> entries can be read,
  \<^verbatim>\<open>_is_model_not_found_404\<close> decides the signal of the specification.
\<close>

lemma is_model_not_found_404_readable:
  assumes "error_readable (map_of kvs ''error'')"
  shows "is_model_not_found_404 (JObj kvs) = Inr (not_found_signal kvs)"
proof (cases "map_of kvs ''error''")
  case None
  then show ?thesis
    by (simp add: is_model_not_found_404_def not_found_signal_def lower_def)
next
  case (Some v)
  show ?thesis
  proof (cases "\<exists>err. v = JObj err")
    case False
    with Some assms have "\<not> truthy v" by (cases v) auto
    with Some False show ?thesis
      by (auto simp: is_model_not_found_404_def not_found_signal_def lower_def)
  next
    case True
    then obtain err where v: "v = JObj err" by blast
    with Some assms have mr: "message_readable (map_of err ''message'')" by simp
    have err: "is_model_not_found_404 (JObj kvs) =
        (case py_lower (py_or (map_of err ''message'') (JStr [])) of
           Inl e \<Rightarrow> Inl e
         | Inr msg \<Rightarrow> Inr (map_of err ''code'' = Some (JNum 404)
                              \<or> py_in ''does not exist'' msg \<or> py_in ''not found'' msg))"
      using Some v by (cases "err = []") (simp_all add: is_model_not_found_404_def)
    show ?thesis
    proof (cases "map_of err ''message''")
      case None
      then show ?thesis using Some v
        by (simp add: err not_found_signal_def lower_def)
    next
      case m: (Some mv)
      show ?thesis
      proof (cases "\<exists>s. mv = JStr s")
        case False
        with m mr have "\<not> truthy mv" by (cases mv) auto
        with m False Some v show ?thesis
          by (auto simp: err not_found_signal_def lower_def)
      next
        case True
        then obtain s where "mv = JStr s" by blast
        with m Some v show ?thesis
          by (cases "s = []")
            (simp_all add: err not_found_signal_def py_in_lower lower_does_not_exist
              lower_not_found)
      qed
    qed
  qed
qed

text \<open>The only exception of \<^verbatim>\<open>_is_model_not_found_404\<close> is \<^verbatim>\<open>AttributeError\<close>.\<close>

lemma is_model_not_found_404_error:
  "is_model_not_found_404 body = Inl e \<Longrightarrow> e = AttributeError"
proof -
  have get: "py_get v k = Inl e' \<Longrightarrow> e' = AttributeError" for v k e'
    by (cases v) simp_all
  have low: "py_lower v = Inl e' \<Longrightarrow> e' = AttributeError" for v e'
    by (cases v) simp_all
  assume "is_model_not_found_404 body = Inl e"
  then show ?thesis
    by (auto simp: is_model_not_found_404_def Let_def split: sum.splits dest: get low)
qed

text \<open>
  What \<^verbatim>\<open>maybe_retry_on_model_404\<close> does where the body can be read: nothing unless the
  status is 404 and the signal is there; then the forced refresh, the resolution, and
  \<open>None\<close> for an empty result.
\<close>

lemma maybe_retry_other_status:
  "resp_status \<noteq> 404 \<Longrightarrow>
     maybe_retry_on_model_404 resp_status resp_json requested default_model reg w
       = (Inr None, reg, w)"
  by (simp add: maybe_retry_on_model_404_def)

lemma maybe_retry_readable:
  assumes "error_readable (map_of kvs ''error'')"
  shows "maybe_retry_on_model_404 404 (Some (JObj kvs)) requested default_model reg w =
     (if \<not> not_found_signal kvs then (Inr None, reg, w)
      else
        (case refresh True reg w of
           (u, reg1, w1) \<Rightarrow>
             (case resolve_model requested default_model reg1 w1 of
                (res, reg2, w2) \<Rightarrow>
                  (Inr (none_if_empty (pick_model (models reg2) requested default_model)),
                   reg2, w2))))"
proof -
  have body: "py_or (Some (JObj kvs)) (JObj []) = JObj kvs" by simp
  obtain u reg1 w1 where r: "refresh True reg w = (u, reg1, w1)"
    by (cases "refresh True reg w") auto
  with refresh_returns [of True reg w] have u: "u = Inr ()" by simp
  show ?thesis
    unfolding maybe_retry_on_model_404_def body
      is_model_not_found_404_readable [OF assms]
    by (simp add: r u resolve_model_unfold case_prod_beta)
qed

text \<open>
  Claim C5 holds on the bodies above, and the code breaks it on others: when the status
  is 404 and the \<^verbatim>\<open>"error"\<close> entry of the body is a non-empty string, the body carries no
  error object, so the claim has \<^verbatim>\<open>maybe_retry_on_model_404\<close> return \<open>None\<close>; the code
  calls \<^verbatim>\<open>.get\<close> on the string and raises \<^verbatim>\<open>AttributeError\<close>, before any refresh.
\<close>

theorem retry_check_raises_on_string_error:
  "maybe_retry_on_model_404 404 (Some (JObj [(''error'', JStr ''no such route'')]))
      (Some ''C'') (Some ''D'') cold_registry (example_world upstream_down no_chat)
   = (Inl AttributeError, cold_registry, example_world upstream_down no_chat)"
  by (simp add: maybe_retry_on_model_404_def is_model_not_found_404_def)


section \<open>Verification: the buffered path of the router\<close>

lemma resolve_model_frame:
  "chat_api (snd (snd (resolve_model requested default_model reg w))) = chat_api w
   \<and> posted (snd (snd (resolve_model requested default_model reg w))) = posted w"
  using refresh_frame [of False reg w] by (simp add: resolve_model_unfold)

lemma maybe_retry_frame:
  "chat_api (snd (snd (maybe_retry_on_model_404 st body requested default_model reg w)))
     = chat_api w
   \<and> posted (snd (snd (maybe_retry_on_model_404 st body requested default_model reg w)))
     = posted w"
proof -
  obtain u reg1 w1 where r: "refresh True reg w = (u, reg1, w1)"
    by (cases "refresh True reg w") auto
  with refresh_returns [of True reg w] have u: "u = Inr ()" by simp
  from refresh_frame [of True reg w] r
  have 1: "chat_api w1 = chat_api w" "posted w1 = posted w" by simp_all
  from resolve_model_frame [of requested default_model reg1 w1] 1
  have 2: "chat_api (snd (snd (resolve_model requested default_model reg1 w1))) = chat_api w"
    "posted (snd (snd (resolve_model requested default_model reg1 w1))) = posted w"
    by simp_all
  show ?thesis
    using 2
    by (simp add: maybe_retry_on_model_404_def r u resolve_model_unfold
        split: sum.splits)
qed

lemma maybe_retry_result:
  assumes "fst (maybe_retry_on_model_404 st body requested default_model reg w) = res"
  shows "res = Inl AttributeError \<or> res = Inr None \<or> (\<exists>m. res = Inr (Some m) \<and> m \<noteq> [])"
proof -
  obtain u reg1 w1 where r: "refresh True reg w = (u, reg1, w1)"
    by (cases "refresh True reg w") auto
  with refresh_returns [of True reg w] have u: "u = Inr ()" by simp
  show ?thesis
    using assms
    by (auto simp: maybe_retry_on_model_404_def r u resolve_model_unfold none_if_empty_def
        split: sum.splits if_splits dest: is_model_not_found_404_error)
qed

lemma post_chat_unfold:
  "post_chat p w =
     (case chat_api w (length (posted w)) p of
        Failed \<Rightarrow> Inl TransportError
      | Reply r \<Rightarrow> Inr r,
      w\<lparr>posted := posted w @ [p]\<rparr>)"
  by (simp add: post_chat_def split: http_reply.splits)

text \<open>
  The path of \<^verbatim>\<open>chat_completions\<close> for \<^verbatim>\<open>stream\<close> false, from any state. The payload is
  posted. One more body is posted if and only if the first answer is a 404 and
  \<^verbatim>\<open>maybe_retry_on_model_404\<close> returns a non-empty model other than the payload's; that
  body is the payload with this model. Unless the retry decision raises, the result is
  decided by the answer to the last body posted: its status with its JSON (or its raw
  text, wrapped), or the transport failure.
\<close>

lemma buffered_posts:
  assumes "buffered requested_model default_model p reg w = (res, reg1, w1)"
  shows "\<exists>second.
      posted w1 = posted w @ p # second
    \<and> length second \<le> 1
    \<and> (second \<noteq> [] \<longleftrightarrow>
         (\<exists>r m. chat_api w (length (posted w)) p = Reply r
            \<and> status_code r = 404
            \<and> fst (maybe_retry_on_model_404 404 (json_body r) requested_model
                     (Some default_model) reg (w\<lparr>posted := posted w @ [p]\<rparr>)) = Inr (Some m)
            \<and> m \<noteq> [] \<and> get_model (model p) \<noteq> Some m))
    \<and> (\<forall>r m. chat_api w (length (posted w)) p = Reply r
            \<and> status_code r = 404
            \<and> fst (maybe_retry_on_model_404 404 (json_body r) requested_model
                     (Some default_model) reg (w\<lparr>posted := posted w @ [p]\<rparr>)) = Inr (Some m)
            \<and> m \<noteq> [] \<and> get_model (model p) \<noteq> Some m
          \<longrightarrow> second = [p\<lparr>model := Model m\<rparr>])
    \<and> ((\<forall>r e. chat_api w (length (posted w)) p = Reply r \<and> status_code r = 404
            \<longrightarrow> fst (maybe_retry_on_model_404 404 (json_body r) requested_model
                     (Some default_model) reg (w\<lparr>posted := posted w @ [p]\<rparr>)) \<noteq> Inl e)
         \<longrightarrow> res =
           (case chat_api w (length (posted w1) - 1) (last (posted w1)) of
              Failed \<Rightarrow> Inl TransportError
            | Reply r \<Rightarrow>
                Inr (JSONResponse (status_code r)
                      (case json_body r of
                         Some content \<Rightarrow> content
                       | None \<Rightarrow> JObj [(''raw'', JStr (text_body r))]))))"
proof (cases "chat_api w (length (posted w)) p")
  case Failed
  then have "buffered requested_model default_model p reg w
      = (Inl TransportError, reg, w\<lparr>posted := posted w @ [p]\<rparr>)"
    by (simp add: buffered_def post_chat_unfold)
  with assms Failed show ?thesis by (intro exI [of _ "[]"]) auto
next
  case (Reply r)
  let ?w1 = "w\<lparr>posted := posted w @ [p]\<rparr>"
  have emit: "json_response r' =
      JSONResponse (status_code r')
        (case json_body r' of
           Some content \<Rightarrow> content
         | None \<Rightarrow> JObj [(''raw'', JStr (text_body r'))])" for r'
    by (simp add: json_response_def split: option.splits)
  show ?thesis
  proof (cases "status_code r = 404")
    case False
    then have "buffered requested_model default_model p reg w = (Inr (json_response r), reg, ?w1)"
      using Reply by (simp add: buffered_def post_chat_unfold)
    with assms Reply False show ?thesis by (intro exI [of _ "[]"]) (auto simp: emit)
  next
    case True
    let ?mr = "maybe_retry_on_model_404 404 (json_body r) requested_model
                 (Some default_model) reg ?w1"
    obtain nm reg2 w2 where mr: "?mr = (nm, reg2, w2)" by (cases ?mr) auto
    from maybe_retry_frame [of 404 "json_body r" requested_model "Some default_model" reg ?w1] mr
    have frame: "chat_api w2 = chat_api w" "posted w2 = posted w @ [p]" by simp_all
    from maybe_retry_result [of 404 "json_body r" requested_model "Some default_model" reg ?w1 nm] mr
    have nm: "nm = Inl AttributeError \<or> nm = Inr None \<or> (\<exists>m. nm = Inr (Some m) \<and> m \<noteq> [])"
      by simp
    have unfold: "buffered requested_model default_model p reg w =
        (case nm of
           Inl e \<Rightarrow> (Inl e, reg2, w2)
         | Inr new_model \<Rightarrow>
             (case retry_model new_model p of
                None \<Rightarrow> (Inr (json_response r), reg2, w2)
              | Some m \<Rightarrow>
                  (case post_chat (p\<lparr>model := Model m\<rparr>) w2 of
                     (Inl e, w3) \<Rightarrow> (Inl e, reg2, w3)
                   | (Inr r2, w3) \<Rightarrow> (Inr (json_response r2), reg2, w3))))"
      using Reply True mr by (simp add: buffered_def post_chat_unfold split: sum.splits)
    consider (raised) "nm = Inl AttributeError"
      | (none) "nm = Inr None"
      | (same) m where "nm = Inr (Some m)" "m \<noteq> []" "get_model (model p) = Some m"
      | (retry) m where "nm = Inr (Some m)" "m \<noteq> []" "get_model (model p) \<noteq> Some m"
      using nm by blast
    then show ?thesis
    proof cases
      case raised
      with unfold assms have "res = Inl AttributeError" "w1 = w2" by simp_all
      with frame raised mr True Reply show ?thesis
        by (intro exI [of _ "[]"]) auto
    next
      case none
      with unfold assms have "res = Inr (json_response r)" "w1 = w2" by simp_all
      with frame none mr True Reply show ?thesis
        by (intro exI [of _ "[]"]) (auto simp: emit)
    next
      case same
      with unfold assms have "res = Inr (json_response r)" "w1 = w2" by simp_all
      with frame same mr True Reply show ?thesis
        by (intro exI [of _ "[]"]) (auto simp: emit)
    next
      case retry
      let ?p2 = "p\<lparr>model := Model m\<rparr>"
      let ?w3 = "w2\<lparr>posted := posted w2 @ [?p2]\<rparr>"
      have w1: "w1 = ?w3"
        using unfold assms retry
        by (auto simp: post_chat_unfold split: http_reply.splits)
      have res: "res = (case chat_api w (Suc (length (posted w))) ?p2 of
                          Failed \<Rightarrow> Inl TransportError
                        | Reply r2 \<Rightarrow> Inr (json_response r2))"
        using unfold assms retry frame
        by (auto simp: post_chat_unfold split: http_reply.splits)
      have posted: "posted w1 = posted w @ [p, ?p2]" using w1 frame by simp
      show ?thesis
      proof (intro exI [of _ "[?p2]"] conjI)
        show "posted w1 = posted w @ p # [?p2]" using posted by simp
        show "length [?p2] \<le> 1" by simp
        show "([?p2] \<noteq> []) \<longleftrightarrow>
         (\<exists>r m'. chat_api w (length (posted w)) p = Reply r
            \<and> status_code r = 404
            \<and> fst (maybe_retry_on_model_404 404 (json_body r) requested_model
                     (Some default_model) reg (w\<lparr>posted := posted w @ [p]\<rparr>)) = Inr (Some m')
            \<and> m' \<noteq> [] \<and> get_model (model p) \<noteq> Some m')"
          using Reply True mr retry by auto
        show "\<forall>r m'. chat_api w (length (posted w)) p = Reply r
            \<and> status_code r = 404
            \<and> fst (maybe_retry_on_model_404 404 (json_body r) requested_model
                     (Some default_model) reg (w\<lparr>posted := posted w @ [p]\<rparr>)) = Inr (Some m')
            \<and> m' \<noteq> [] \<and> get_model (model p) \<noteq> Some m'
          \<longrightarrow> [?p2] = [p\<lparr>model := Model m'\<rparr>]"
          using Reply mr retry by auto
        show "(\<forall>r e. chat_api w (length (posted w)) p = Reply r \<and> status_code r = 404
            \<longrightarrow> fst (maybe_retry_on_model_404 404 (json_body r) requested_model
                     (Some default_model) reg (w\<lparr>posted := posted w @ [p]\<rparr>)) \<noteq> Inl e)
         \<longrightarrow> res =
           (case chat_api w (length (posted w1) - 1) (last (posted w1)) of
              Failed \<Rightarrow> Inl TransportError
            | Reply r \<Rightarrow>
                Inr (JSONResponse (status_code r)
                      (case json_body r of
                         Some content \<Rightarrow> content
                       | None \<Rightarrow> JObj [(''raw'', JStr (text_body r))])))"
          using res posted by (simp add: emit split: http_reply.splits)
      qed
    qed
  qed
qed

lemma resolve_step_frame:
  "chat_api (snd (snd (resolve_step default_model p reg w))) = chat_api w
   \<and> posted (snd (snd (resolve_step default_model p reg w))) = posted w"
  using resolve_model_frame [of "get_model (model p)" "Some default_model" reg w]
  by (simp add: resolve_step_def resolve_model_unfold)

lemma resolve_step_returns: "\<exists>p1. fst (resolve_step default_model p reg w) = Inr p1"
  by (simp add: resolve_step_def resolve_model_unfold)

lemma chat_completions_dispatch:
  assumes "resolve_step (env_DEFAULT_MODEL env) p reg w = (Inr p1, reg1, w1)"
  shows "chat_completions env p reg w =
     (case (if env_FORCE_JA env = ''1'' then inject_ja p1 else Inr p1) of
        Inl e \<Rightarrow> (Inl e, reg1, w1)
      | Inr p2 \<Rightarrow>
          if wants_stream p2
          then (Inr (StreamingResponse (stream_openai_sse (stream_api w1 p2))), reg1, w1)
          else buffered (get_model (model p)) (env_DEFAULT_MODEL env) p2 reg1 w1)"
  using assms by (simp add: chat_completions_def)

text \<open>What the handler posts is bounded for every request, on either path.\<close>

lemma chat_completions_posts_bound:
  "length (posted (snd (snd (chat_completions env p reg w)))) \<le> length (posted w) + 2"
proof -
  let ?rs = "resolve_step (env_DEFAULT_MODEL env) p reg w"
  obtain p1 where p1: "fst ?rs = Inr p1" using resolve_step_returns by blast
  then have rs: "?rs = (Inr p1, fst (snd ?rs), snd (snd ?rs))" by (simp add: prod_eq_iff)
  from resolve_step_frame [of "env_DEFAULT_MODEL env" p reg w]
  have frame: "posted (snd (snd ?rs)) = posted w" by simp
  show ?thesis
  proof (cases "if env_FORCE_JA env = ''1'' then inject_ja p1 else Inr p1")
    case (Inl e)
    with chat_completions_dispatch [OF rs] frame show ?thesis by simp
  next
    case (Inr p2)
    show ?thesis
    proof (cases "wants_stream p2")
      case True
      with chat_completions_dispatch [OF rs] Inr frame show ?thesis by simp
    next
      case False
      let ?b = "buffered (get_model (model p)) (env_DEFAULT_MODEL env) p2
                  (fst (snd ?rs)) (snd (snd ?rs))"
      have "?b = (fst ?b, fst (snd ?b), snd (snd ?b))" by simp
      from buffered_posts [OF this] obtain second where
        "posted (snd (snd ?b)) = posted (snd (snd ?rs)) @ p2 # second" "length second \<le> 1"
        by blast
      with chat_completions_dispatch [OF rs] Inr False frame show ?thesis by simp
    qed
  qed
qed

lemmas router_eval =
  chat_completions_def resolve_step_def resolve_model_def pick_model_def candidates_def
  inject_ja_def system_first_def wants_stream_def buffered_def post_chat_def
  maybe_retry_on_model_404_def is_model_not_found_404_def none_if_empty_def
  json_response_def chat_payload_def policy_payload_def example_env_def chat_serving_def
  ok_response_def not_found_response_def lower_def lower_char_def
  chat_not_found_then_down_def no_route_response_def chat_no_route_def

text \<open>
  The defect of claim C5 as the handler shows it: the first answer is a 404 whose
  \<^verbatim>\<open>"error"\<close> entry is a string, the retry decision raises \<^verbatim>\<open>AttributeError\<close>, and the
  handler ends with that exception after its one \<^verbatim>\<open>POST\<close>.
\<close>

lemma unreadable_error_entry_raises:
  "posted (snd (snd (chat_completions example_env (chat_payload (Model ''A''))
         (example_registry [''A'', ''B''])
         (example_world (upstream_lists listing_AB) chat_no_route))))
       = [policy_payload (Model ''A'')]
   \<and> fst (chat_completions example_env (chat_payload (Model ''A''))
         (example_registry [''A'', ''B''])
         (example_world (upstream_lists listing_AB) chat_no_route))
       = Inl AttributeError"
  by (simp add: router_eval refresh_eval)

text \<open>
  Claim C2, as stated, fails: the first \<^verbatim>\<open>POST\<close> asks for \<open>old\<close> and is answered 404, the
  listing is fetched again, the second \<^verbatim>\<open>POST\<close> asks for \<open>A\<close> and finds the upstream
  unreachable. A response was received, the 404, and it is not what is returned: nothing
  is returned, the transport exception of the second \<^verbatim>\<open>POST\<close> leaves the handler.
\<close>

theorem failed_retry_returns_no_response:
  "chat_api (example_world (upstream_lists listing_AB) chat_not_found_then_down) 0
       (policy_payload (Model ''old'')) = Reply not_found_response
   \<and> chat_api (example_world (upstream_lists listing_AB) chat_not_found_then_down) 1
       (policy_payload (Model ''A'')) = Failed
   \<and> posted (snd (snd (chat_completions example_env (chat_payload (Model ''old''))
         (example_registry [''old''])
         (example_world (upstream_lists listing_AB) chat_not_found_then_down))))
       = [policy_payload (Model ''old''), policy_payload (Model ''A'')]
   \<and> fst (chat_completions example_env (chat_payload (Model ''old''))
         (example_registry [''old''])
         (example_world (upstream_lists listing_AB) chat_not_found_then_down))
       = Inl TransportError"
  by (simp add: router_eval refresh_eval)

text \<open>
  Claim C2, amended. A request that takes the buffered path (the Resolve step gave the
  payload \<open>p1\<close>, the policy step \<open>p2\<close>, and \<^verbatim>\<open>stream\<close> is false) makes one upstream
  \<^verbatim>\<open>POST\<close> with \<open>p2\<close> and at most one more, never a third. The second \<^verbatim>\<open>POST\<close> is made if
  and only if the first answer has status 404 and \<^verbatim>\<open>maybe_retry_on_model_404\<close> returns a
  non-empty model other than the one just tried; its body is \<open>p2\<close> with \<^verbatim>\<open>"model"\<close> set to
  that model. Where the retry decision returns, the outcome is that of the last \<^verbatim>\<open>POST\<close>
  made: if it was answered, the handler returns that answer, its status code with its
  JSON body, or with the raw text wrapped when the body is not JSON; if it failed in
  transport, the exception leaves the handler and no response is returned. What the
  handler does when the retry decision raises is the matter of claim C5 and is not
  stated here, beyond the one \<^verbatim>\<open>POST\<close> made.
\<close>

theorem buffered_path_posts_at_most_twice:
  assumes "resolve_step (env_DEFAULT_MODEL env) p reg w = (Inr p1, reg1, w1)"
    and "(if env_FORCE_JA env = ''1'' then inject_ja p1 else Inr p1) = Inr p2"
    and "\<not> wants_stream p2"
    and "chat_completions env p reg w = (res, reg2, w2)"
  shows "\<exists>second.
      posted w2 = posted w @ p2 # second
    \<and> length second \<le> 1
    \<and> (second \<noteq> [] \<longleftrightarrow>
         (\<exists>r m. chat_api w (length (posted w)) p2 = Reply r
            \<and> status_code r = 404
            \<and> fst (maybe_retry_on_model_404 404 (json_body r) (get_model (model p))
                     (Some (env_DEFAULT_MODEL env)) reg1 (w1\<lparr>posted := posted w @ [p2]\<rparr>))
                = Inr (Some m)
            \<and> m \<noteq> [] \<and> get_model (model p2) \<noteq> Some m))
    \<and> (\<forall>r m. chat_api w (length (posted w)) p2 = Reply r
            \<and> status_code r = 404
            \<and> fst (maybe_retry_on_model_404 404 (json_body r) (get_model (model p))
                     (Some (env_DEFAULT_MODEL env)) reg1 (w1\<lparr>posted := posted w @ [p2]\<rparr>))
                = Inr (Some m)
            \<and> m \<noteq> [] \<and> get_model (model p2) \<noteq> Some m
          \<longrightarrow> second = [p2\<lparr>model := Model m\<rparr>])
    \<and> ((\<forall>r e. chat_api w (length (posted w)) p2 = Reply r \<and> status_code r = 404
            \<longrightarrow> fst (maybe_retry_on_model_404 404 (json_body r) (get_model (model p))
                     (Some (env_DEFAULT_MODEL env)) reg1 (w1\<lparr>posted := posted w @ [p2]\<rparr>))
                  \<noteq> Inl e)
         \<longrightarrow> res =
           (case chat_api w (length (posted w2) - 1) (last (posted w2)) of
              Failed \<Rightarrow> Inl TransportError
            | Reply r \<Rightarrow>
                Inr (JSONResponse (status_code r)
                      (case json_body r of
                         Some content \<Rightarrow> content
                       | None \<Rightarrow> JObj [(''raw'', JStr (text_body r))]))))"
proof -
  from resolve_step_frame [of "env_DEFAULT_MODEL env" p reg w] assms(1)
  have frame: "chat_api w1 = chat_api w" "posted w1 = posted w" by simp_all
  have "buffered (get_model (model p)) (env_DEFAULT_MODEL env) p2 reg1 w1 = (res, reg2, w2)"
    using chat_completions_dispatch [OF assms(1)] assms(2,3,4) by simp
  from buffered_posts [OF this] show ?thesis unfolding frame .
qed

text \<open>
  The cache holds the model \<open>old\<close>, the upstream now serves \<open>A\<close> and \<open>B\<close>: the first
  \<^verbatim>\<open>POST\<close> asks for \<open>old\<close> and is answered 404, the listing is fetched again, the second
  \<^verbatim>\<open>POST\<close> asks for \<open>A\<close> and its answer, a 200, is returned.
\<close>

theorem buffered_path_posts_at_most_twice_witness:
  "\<not> wants_stream (policy_payload (Model ''old''))
   \<and> posted (snd (snd (chat_completions example_env (chat_payload (Model ''old''))
         (example_registry [''old''])
         (example_world (upstream_lists listing_AB) (chat_serving [''A'', ''B''])))))
       = [policy_payload (Model ''old''), policy_payload (Model ''A'')]
   \<and> fst (chat_completions example_env (chat_payload (Model ''old''))
         (example_registry [''old''])
         (example_world (upstream_lists listing_AB) (chat_serving [''A'', ''B''])))
       = Inr (JSONResponse 200 (JObj [(''object'', JStr ''chat.completion'')]))"
proof -
  let ?p = "chat_payload (Model ''old'')"
  let ?p2 = "policy_payload (Model ''old'')"
  let ?reg = "example_registry [''old'']"
  let ?w = "example_world (upstream_lists listing_AB) (chat_serving [''A'', ''B''])"
  let ?rs = "resolve_step (env_DEFAULT_MODEL example_env) ?p ?reg ?w"
  let ?out = "chat_completions example_env ?p ?reg ?w"
  have 1: "?rs = (Inr ?p, fst (snd ?rs), snd (snd ?rs))"
    by (simp add: router_eval refresh_eval prod_eq_iff)
  have 2: "(if env_FORCE_JA example_env = ''1'' then inject_ja ?p else Inr ?p) = Inr ?p2"
    by (simp add: router_eval)
  have 3: "\<not> wants_stream ?p2"
    by (simp add: router_eval)
  have 4: "?out = (fst ?out, fst (snd ?out), snd (snd ?out))" by simp
  have first: "chat_api ?w (length (posted ?w)) ?p2 = Reply not_found_response"
    by (simp add: router_eval example_world_def)
  have decision: "fst (maybe_retry_on_model_404 404 (json_body not_found_response)
        (get_model (model ?p)) (Some (env_DEFAULT_MODEL example_env)) (fst (snd ?rs))
        ((snd (snd ?rs))\<lparr>posted := posted ?w @ [?p2]\<rparr>)) = Inr (Some ''A'')"
    by (simp add: router_eval refresh_eval)
  have other: "get_model (model ?p2) \<noteq> Some ''A''" "status_code not_found_response = 404"
    by (simp_all add: router_eval)
  have second: "chat_api ?w (Suc (length (posted ?w))) (?p2\<lparr>model := Model ''A''\<rparr>)
      = Reply ok_response"
    by (simp add: router_eval example_world_def)
  have A: "?p2\<lparr>model := Model ''A''\<rparr> = policy_payload (Model ''A'')"
    by (simp add: router_eval)
  from buffered_path_posts_at_most_twice [OF 1 2 3 4] obtain second where
    p: "posted (snd (snd ?out)) = posted ?w @ ?p2 # second"
    and s: "\<forall>r m. chat_api ?w (length (posted ?w)) ?p2 = Reply r
            \<and> status_code r = 404
            \<and> fst (maybe_retry_on_model_404 404 (json_body r) (get_model (model ?p))
                     (Some (env_DEFAULT_MODEL example_env)) (fst (snd ?rs))
                     ((snd (snd ?rs))\<lparr>posted := posted ?w @ [?p2]\<rparr>))
                = Inr (Some m)
            \<and> m \<noteq> [] \<and> get_model (model ?p2) \<noteq> Some m
          \<longrightarrow> second = [?p2\<lparr>model := Model m\<rparr>]"
    and r: "(\<forall>r e. chat_api ?w (length (posted ?w)) ?p2 = Reply r \<and> status_code r = 404
            \<longrightarrow> fst (maybe_retry_on_model_404 404 (json_body r) (get_model (model ?p))
                     (Some (env_DEFAULT_MODEL example_env)) (fst (snd ?rs))
                     ((snd (snd ?rs))\<lparr>posted := posted ?w @ [?p2]\<rparr>))
                  \<noteq> Inl e)
         \<longrightarrow> fst ?out =
           (case chat_api ?w (length (posted (snd (snd ?out))) - 1) (last (posted (snd (snd ?out)))) of
              Failed \<Rightarrow> Inl TransportError
            | Reply r \<Rightarrow>
                Inr (JSONResponse (status_code r)
                      (case json_body r of
                         Some content \<Rightarrow> content
                       | None \<Rightarrow> JObj [(''raw'', JStr (text_body r))])))"
    by blast
  from s first decision other have sec: "second = [?p2\<lparr>model := Model ''A''\<rparr>]"
    by blast
  have w0: "posted ?w = []" by (simp add: example_world_def)
  from p sec w0 A have posted: "posted (snd (snd ?out)) = [?p2, policy_payload (Model ''A'')]"
    by simp
  have "\<forall>r e. chat_api ?w (length (posted ?w)) ?p2 = Reply r \<and> status_code r = 404
            \<longrightarrow> fst (maybe_retry_on_model_404 404 (json_body r) (get_model (model ?p))
                     (Some (env_DEFAULT_MODEL example_env)) (fst (snd ?rs))
                     ((snd (snd ?rs))\<lparr>posted := posted ?w @ [?p2]\<rparr>))
                  \<noteq> Inl e"
    using first decision by auto
  with r have "fst ?out =
           (case chat_api ?w (length (posted (snd (snd ?out))) - 1) (last (posted (snd (snd ?out)))) of
              Failed \<Rightarrow> Inl TransportError
            | Reply r \<Rightarrow>
                Inr (JSONResponse (status_code r)
                      (case json_body r of
                         Some content \<Rightarrow> content
                       | None \<Rightarrow> JObj [(''raw'', JStr (text_body r))])))"
    by blast
  then have res: "fst ?out = Inr (JSONResponse 200 (JObj [(''object'', JStr ''chat.completion'')]))"
    using posted second w0 A by (simp add: ok_response_def)
  from 3 posted res show ?thesis by blast
qed

section \<open>Verification: concurrent calls of refresh\<close>

lemma run_append: "run (xs @ ys) s = run ys (run xs s)"
  by (induction xs arbitrary: s) simp_all

lemma resume_single:
  assumes "call_step force pc reg w lk = (pc1, reg1, w1, lk1)"
  shows "resume 0 \<lparr>shared = reg, outside = w, locked = lk, calls = [(force, pc)]\<rparr>
       = \<lparr>shared = reg1, outside = w1, locked = lk1, calls = [(force, pc1)]\<rparr>"
  using assms by (simp add: resume_def)

text \<open>
  A call that runs alone, resumed until it returns, does what \<open>fetch_loop\<close> and
  \<open>refresh\<close> say: the concurrent description and the sequential one are the same code.
\<close>

lemma single_call_loop:
  assumes "enter_loop n le reg w = (pc, reg1, w1, lk)"
  shows "\<exists>m. run (replicate m 0) \<lparr>shared = reg1, outside = w1, locked = lk, calls = [(force, pc)]\<rparr>
      = \<lparr>shared = fst (fetch_loop force n le reg w), outside = snd (fetch_loop force n le reg w),
         locked = False, calls = [(force, Done)]\<rparr>"
  using assms
proof (induction n arbitrary: le w pc reg1 w1 lk)
  case 0
  then have "run (replicate 0 0) \<lparr>shared = reg1, outside = w1, locked = lk, calls = [(force, pc)]\<rparr>
      = \<lparr>shared = fst (fetch_loop force 0 le reg w), outside = snd (fetch_loop force 0 le reg w),
         locked = False, calls = [(force, Done)]\<rparr>"
    by (auto split: option.splits)
  then show ?case by blast
next
  case (Suc n)
  let ?w' = "w\<lparr>gets := Suc (gets w)\<rparr>"
  from Suc.prems have start: "pc = Await_get (gets w) n le" "reg1 = reg" "w1 = ?w'" "lk = True"
    by simp_all
  let ?start = "\<lparr>shared = reg, outside = ?w', locked = True, calls = [(force, Await_get (gets w) n le)]\<rparr>"
  show ?case
  proof (cases "read_models (models_api w (gets w))")
    case (Inr ids)
    have "call_step force (Await_get (gets w) n le) reg ?w' True
        = (Done, fst (store_models ids reg ?w'), snd (store_models ids reg ?w'), False)"
      using Inr by (simp add: case_prod_beta)
    from resume_single [OF this]
    have "run (replicate 1 0) ?start
        = \<lparr>shared = fst (fetch_loop force (Suc n) le reg w),
           outside = snd (fetch_loop force (Suc n) le reg w),
           locked = False, calls = [(force, Done)]\<rparr>"
      using Inr by (simp add: fetch_models_def)
    then show ?thesis unfolding start by blast
  next
    case (Inl e)
    show ?thesis
    proof (cases force)
      case True
      let ?w2 = "sleep (retry_delay_sec reg) ?w'"
      have 1: "call_step force (Await_get (gets w) n le) reg ?w' True
          = (Asleep n (Some e), reg, ?w2, True)"
        using Inl True by simp
      obtain pc2 reg2 w2 lk2 where el: "enter_loop n (Some e) reg ?w2 = (pc2, reg2, w2, lk2)"
        by (cases "enter_loop n (Some e) reg ?w2") auto
      then have 2: "call_step force (Asleep n (Some e)) reg ?w2 True = (pc2, reg2, w2, lk2)"
        by simp
      from Suc.IH [OF el] obtain m where
        m: "run (replicate m 0) \<lparr>shared = reg2, outside = w2, locked = lk2, calls = [(force, pc2)]\<rparr>
          = \<lparr>shared = fst (fetch_loop force n (Some e) reg ?w2),
             outside = snd (fetch_loop force n (Some e) reg ?w2),
             locked = False, calls = [(force, Done)]\<rparr>"
        by blast
      have fl: "fetch_loop force (Suc n) le reg w = fetch_loop force n (Some e) reg ?w2"
        using Inl True by (simp add: fetch_models_def)
      have "run (replicate (Suc (Suc m)) 0) ?start
          = \<lparr>shared = fst (fetch_loop force (Suc n) le reg w),
             outside = snd (fetch_loop force (Suc n) le reg w),
             locked = False, calls = [(force, Done)]\<rparr>"
        using m by (simp add: resume_single [OF 1] resume_single [OF 2] fl del: fetch_loop.simps)
      then show ?thesis unfolding start by blast
    next
      case False
      obtain pc2 reg2 w2 lk2 where el: "enter_loop n (Some e) reg ?w' = (pc2, reg2, w2, lk2)"
        by (cases "enter_loop n (Some e) reg ?w'") auto
      then have 1: "call_step force (Await_get (gets w) n le) reg ?w' True = (pc2, reg2, w2, lk2)"
        using Inl False by simp
      from Suc.IH [OF el] obtain m where
        m: "run (replicate m 0) \<lparr>shared = reg2, outside = w2, locked = lk2, calls = [(force, pc2)]\<rparr>
          = \<lparr>shared = fst (fetch_loop force n (Some e) reg ?w'),
             outside = snd (fetch_loop force n (Some e) reg ?w'),
             locked = False, calls = [(force, Done)]\<rparr>"
        by blast
      have fl: "fetch_loop force (Suc n) le reg w = fetch_loop force n (Some e) reg ?w'"
        using Inl False by (simp add: fetch_models_def)
      have "run (replicate (Suc m) 0) ?start
          = \<lparr>shared = fst (fetch_loop force (Suc n) le reg w),
             outside = snd (fetch_loop force (Suc n) le reg w),
             locked = False, calls = [(force, Done)]\<rparr>"
        using m by (simp add: resume_single [OF 1] fl del: fetch_loop.simps)
      then show ?thesis unfolding start by blast
    qed
  qed
qed

lemma single_call_is_refresh:
  "\<exists>m. run (replicate m 0) \<lparr>shared = reg, outside = w, locked = False, calls = [(force, Start)]\<rparr>
      = \<lparr>shared = fst (snd (refresh force reg w)), outside = snd (snd (refresh force reg w)),
         locked = False, calls = [(force, Done)]\<rparr>"
proof -
  let ?start = "\<lparr>shared = reg, outside = w, locked = False, calls = [(force, Start)]\<rparr>"
  let ?goal = "\<lambda>m. run (replicate m 0) ?start
      = \<lparr>shared = fst (snd (refresh force reg w)), outside = snd (snd (refresh force reg w)),
         locked = False, calls = [(force, Done)]\<rparr>"
  have through_loop: "\<exists>m. ?goal m"
    if step: "call_step force Start reg w False = enter_loop (attempts force reg) None reg w0"
      and r: "refresh force reg w = (Inr (), fetch_loop force (attempts force reg) None reg w0)"
    for w0
  proof -
    obtain pc1 reg1 w1 lk1 where
      el: "enter_loop (attempts force reg) None reg w0 = (pc1, reg1, w1, lk1)"
      by (cases "enter_loop (attempts force reg) None reg w0") auto
    from single_call_loop [OF el, of force] obtain m where
      m: "run (replicate m 0) \<lparr>shared = reg1, outside = w1, locked = lk1, calls = [(force, pc1)]\<rparr>
          = \<lparr>shared = fst (fetch_loop force (attempts force reg) None reg w0),
             outside = snd (fetch_loop force (attempts force reg) None reg w0),
             locked = False, calls = [(force, Done)]\<rparr>"
      by blast
    have "call_step force Start reg w False = (pc1, reg1, w1, lk1)" using step el by simp
    from resume_single [OF this] m have "?goal (Suc m)" by (simp add: r)
    then show ?thesis by blast
  qed
  show ?thesis
  proof (cases force)
    case True
    have "call_step force Start reg w False = enter_loop (attempts force reg) None reg w"
      using True by (simp add: with_lock_def)
    moreover have "refresh force reg w = (Inr (), fetch_loop force (attempts force reg) None reg w)"
      using True by (simp add: refresh_def)
    ultimately show ?thesis by (rule through_loop)
  next
    case False
    obtain f1 w1 where f1: "is_fresh reg w = (f1, w1)" by (cases "is_fresh reg w") auto
    obtain f2 w2 where f2: "is_fresh reg w1 = (f2, w2)" by (cases "is_fresh reg w1") auto
    show ?thesis
    proof (cases f1)
      case True
      have "call_step force Start reg w False = (Done, reg, w1, False)"
        using False f1 True by simp
      from resume_single [OF this] have "?goal 1"
        using False f1 True by (simp add: refresh_def)
      then show ?thesis by blast
    next
      case nf1: False
      show ?thesis
      proof (cases f2)
        case True
        have "call_step force Start reg w False = (Done, reg, w2, False)"
          using False f1 f2 nf1 True by (simp add: with_lock_def)
        from resume_single [OF this] have "?goal 1"
          using False f1 f2 nf1 True by (simp add: refresh_def)
        then show ?thesis by blast
      next
        case nf2: False
        have "call_step force Start reg w False = enter_loop (attempts force reg) None reg w2"
          using False f1 f2 nf1 nf2 by (simp add: with_lock_def)
        moreover have "refresh force reg w
            = (Inr (), fetch_loop force (attempts force reg) None reg w2)"
          using False f1 f2 nf1 nf2 by (simp add: refresh_def)
        ultimately show ?thesis by (rule through_loop)
      qed
    qed
  qed
qed

lemma length_filter_update:
  "i < length xs \<Longrightarrow>
     length (filter P (xs[i := y])) + (if P (xs ! i) then 1 else 0)
       = length (filter P xs) + (if P y then 1 else 0)"
proof (induction xs arbitrary: i)
  case Nil
  then show ?case by simp
next
  case (Cons x xs)
  show ?case
  proof (cases i)
    case 0
    then show ?thesis by simp
  next
    case (Suc j)
    with Cons.prems have "j < length xs" by simp
    from Cons.IH [OF this] Suc show ?thesis by simp
  qed
qed

lemma list_all_update: "list_all Q xs \<Longrightarrow> Q y \<Longrightarrow> list_all Q (xs[i := y])"
  by (induction xs arbitrary: i) (auto split: nat.splits)

lemma resume_unfold:
  assumes "i < length (calls s)"
    and "call_step (fst (calls s ! i)) (snd (calls s ! i)) (shared s) (outside s) (locked s)
           = (pc1, reg1, w1, lk1)"
  shows "resume i s = \<lparr>shared = reg1, outside = w1, locked = lk1,
                        calls = (calls s)[i := (fst (calls s ! i), pc1)]\<rparr>"
  using assms by (simp add: resume_def)

lemma attempts_forced: "\<exists>m. attempts True reg = Suc m"
  by (cases "attempts True reg") (simp_all add: attempts_def)

text \<open>Resuming any call keeps the invariant of forced calls.\<close>

lemma forced_inv_resume:
  assumes inv: "forced_inv n w0 s" and listed: "listed_for n w0"
  shows "forced_inv n w0 (resume i s)"
proof (cases "i < length (calls s)")
  case False
  then show ?thesis using inv by (simp add: resume_def)
next
  case True
  let ?cs = "calls s"
  let ?w = "outside s"
  let ?reg = "shared s"
  let ?iss = "\<lambda>c. issued (snd c)"
  let ?fly = "\<lambda>c. in_flight (snd c)"
  from inv have len: "length ?cs = n"
    and ok: "list_all (call_ok (gets w0) (gets w0 + n)) ?cs"
    and api: "models_api ?w = models_api w0"
    and cnt: "gets ?w = gets w0 + length (filter ?iss ?cs)"
    and fly: "length (filter ?fly ?cs) = (if locked s then 1 else 0)"
    by (simp_all add: forced_inv_def fetching_def)
  from ok True have oki: "call_ok (gets w0) (gets w0 + n) (?cs ! i)"
    by (simp add: list_all_length)
  then have force: "fst (?cs ! i)" by (simp add: call_ok_def)
  note upd_iss = length_filter_update [OF True, of ?iss]
  note upd_fly = length_filter_update [OF True, of ?fly]
  have mem: "?cs ! i \<in> set ?cs" using True by simp
  have take: "forced_inv n w0 (resume i s)"
    if pc: "snd (?cs ! i) = Start \<or> snd (?cs ! i) = Wait_lock" and free: "\<not> locked s"
  proof -
    obtain m where m: "attempts True ?reg = Suc m" using attempts_forced by blast
    have step: "call_step (fst (?cs ! i)) (snd (?cs ! i)) ?reg ?w (locked s)
        = (Await_get (gets ?w) m None, ?reg, ?w\<lparr>gets := Suc (gets ?w)\<rparr>, True)"
      using pc free force m by (auto simp: with_lock_def)
    have notiss: "\<not> ?iss (?cs ! i)" "\<not> ?fly (?cs ! i)" using pc by auto
    then have less: "length (filter ?iss ?cs) < n"
      using length_filter_less [OF mem, of ?iss] len by simp
    have newok: "call_ok (gets w0) (gets w0 + n) (fst (?cs ! i), Await_get (gets ?w) m None)"
      using force cnt less by (simp add: call_ok_def)
    show ?thesis
      unfolding resume_unfold [OF True step]
      using len api cnt fly free notiss
        upd_iss [of "(fst (?cs ! i), Await_get (gets ?w) m None)"]
        upd_fly [of "(fst (?cs ! i), Await_get (gets ?w) m None)"]
        list_all_update [OF ok newok, of i]
      by (simp add: forced_inv_def fetching_def)
  qed
  have wait: "forced_inv n w0 (resume i s)"
    if pc: "snd (?cs ! i) = Start \<or> snd (?cs ! i) = Wait_lock" and held: "locked s"
  proof -
    have step: "call_step (fst (?cs ! i)) (snd (?cs ! i)) ?reg ?w (locked s)
        = (Wait_lock, ?reg, ?w, True)"
      using pc held force by auto
    have notiss: "\<not> ?iss (?cs ! i)" "\<not> ?fly (?cs ! i)" using pc by auto
    have newok: "call_ok (gets w0) (gets w0 + n) (fst (?cs ! i), Wait_lock)"
      using force by (simp add: call_ok_def)
    show ?thesis
      unfolding resume_unfold [OF True step]
      using len api cnt fly held notiss
        upd_iss [of "(fst (?cs ! i), Wait_lock)"]
        upd_fly [of "(fst (?cs ! i), Wait_lock)"]
        list_all_update [OF ok newok, of i]
      by (simp add: forced_inv_def fetching_def)
  qed
  show ?thesis
  proof (cases "snd (?cs ! i)")
    case Start
    then show ?thesis using take wait by (cases "locked s") auto
  next
    case Wait_lock
    then show ?thesis using take wait by (cases "locked s") auto
  next
    case (Await_get k m le)
    with oki have k: "gets w0 \<le> k" "k < gets w0 + n" by (simp_all add: call_ok_def)
    with listed have "\<not> isl (read_models (models_api w0 k))"
      by (simp add: listed_for_def list_all_iff)
    then obtain ids where ids: "read_models (models_api ?w k) = Inr ids"
      using api by (cases "read_models (models_api w0 k)") auto
    have step: "call_step (fst (?cs ! i)) (snd (?cs ! i)) ?reg ?w (locked s)
        = (Done, fst (store_models ids ?reg ?w), snd (store_models ids ?reg ?w), False)"
      using Await_get ids by (simp add: case_prod_beta)
    have isiss: "?iss (?cs ! i)" "?fly (?cs ! i)" using Await_get by auto
    have "0 < length (filter ?fly ?cs)"
      using mem isiss by (simp add: filter_empty_conv) blast
    with fly have held: "locked s" by (simp split: if_splits)
    have newok: "call_ok (gets w0) (gets w0 + n) (fst (?cs ! i), Done)"
      using force by (simp add: call_ok_def)
    show ?thesis
      unfolding resume_unfold [OF True step]
      using len api cnt fly held isiss
        upd_iss [of "(fst (?cs ! i), Done)"]
        upd_fly [of "(fst (?cs ! i), Done)"]
        list_all_update [OF ok newok, of i]
      by (simp add: forced_inv_def fetching_def store_models_world)
  next
    case (Asleep m le)
    with oki show ?thesis by (simp add: call_ok_def)
  next
    case Done
    then have step: "call_step (fst (?cs ! i)) (snd (?cs ! i)) ?reg ?w (locked s)
        = (Done, ?reg, ?w, locked s)"
      by simp
    have same: "?cs[i := (fst (?cs ! i), Done)] = ?cs"
      using Done by (metis list_update_id prod.collapse)
    show ?thesis
      unfolding resume_unfold [OF True step] same
      using inv by (simp add: forced_inv_def fetching_def)
  qed
qed

lemma forced_inv_run:
  "forced_inv n w0 s \<Longrightarrow> listed_for n w0 \<Longrightarrow> forced_inv n w0 (run sched s)"
  by (induction sched arbitrary: s) (simp_all add: forced_inv_resume)

lemma forced_inv_initial: "forced_inv n w (forced_calls n reg w)"
  by (simp add: forced_inv_def forced_calls_def fetching_def call_ok_def list_all_iff)

lemma replicate_update_next:
  "(replicate k x @ replicate (Suc j) y)[k := x] = replicate (Suc k) x @ replicate j y"
  by (simp add: list_update_append replicate_append_same)

text \<open>
  Resumed in turn, each call twice, forced calls all return: the first step takes the lock
  and sends the request, the second reads the listing and releases the lock.
\<close>

lemma in_turn_complete:
  assumes listed: "listed_for n w0"
    and inv: "forced_inv n w0 s" 
    and free: "\<not> locked s"
    and cs: "calls s = replicate k (True, Done) @ replicate j (True, Start)"
  shows "all_done (run (concat (map (\<lambda>i. [i, i]) [k..<k + j])) s)"
  using inv free cs
proof (induction j arbitrary: k s)
  case 0
  then show ?case by (simp add: all_done_def list_all_iff)
next
  case (Suc j)
  let ?reg = "shared s"
  let ?w = "outside s"
  have k: "k < length (calls s)" using Suc.prems(3) by simp
  have at_k: "calls s ! k = (True, Start)"
    using Suc.prems(3) by (simp add: nth_append)
  obtain m where m: "attempts True ?reg = Suc m" using attempts_forced by blast
  have step1: "call_step (fst (calls s ! k)) (snd (calls s ! k)) ?reg ?w (locked s)
      = (Await_get (gets ?w) m None, ?reg, ?w\<lparr>gets := Suc (gets ?w)\<rparr>, True)"
    using at_k Suc.prems(2) m by (simp add: with_lock_def)
  let ?s1 = "resume k s"
  have s1: "?s1 = \<lparr>shared = ?reg, outside = ?w\<lparr>gets := Suc (gets ?w)\<rparr>, locked = True,
                    calls = (calls s)[k := (True, Await_get (gets ?w) m None)]\<rparr>"
    using resume_unfold [OF k step1] at_k by simp
  have inv1: "forced_inv n w0 ?s1" using forced_inv_resume [OF Suc.prems(1) listed] .
  have k1: "k < length (calls ?s1)" using k s1 by simp
  have at_k1: "calls ?s1 ! k = (True, Await_get (gets ?w) m None)"
    using k s1 by simp
  from inv1 k1 have "call_ok (gets w0) (gets w0 + n) (calls ?s1 ! k)"
    by (simp add: forced_inv_def list_all_length)
  then have "gets w0 \<le> gets ?w" "gets ?w < gets w0 + n"
    using at_k1 by (simp_all add: call_ok_def)
  with listed have "\<not> isl (read_models (models_api w0 (gets ?w)))"
    by (simp add: listed_for_def list_all_iff)
  moreover have "models_api (outside ?s1) = models_api w0"
    using inv1 by (simp add: forced_inv_def)
  ultimately obtain ids where ids: "read_models (models_api (outside ?s1) (gets ?w)) = Inr ids"
    by (cases "read_models (models_api w0 (gets ?w))") auto
  have step2: "call_step (fst (calls ?s1 ! k)) (snd (calls ?s1 ! k)) (shared ?s1) (outside ?s1)
        (locked ?s1)
      = (Done, fst (store_models ids (shared ?s1) (outside ?s1)),
         snd (store_models ids (shared ?s1) (outside ?s1)), False)"
    using at_k1 ids by (simp add: case_prod_beta)
  let ?s2 = "resume k ?s1"
  have s2: "?s2 = \<lparr>shared = fst (store_models ids (shared ?s1) (outside ?s1)),
                    outside = snd (store_models ids (shared ?s1) (outside ?s1)),
                    locked = False,
                    calls = (calls ?s1)[k := (True, Done)]\<rparr>"
    using resume_unfold [OF k1 step2] at_k1 by simp
  have inv2: "forced_inv n w0 ?s2" using forced_inv_resume [OF inv1 listed] .
  have free2: "\<not> locked ?s2" using s2 by simp
  have "calls ?s2 = (calls s)[k := (True, Done)]"
    using s2 s1 by simp
  then have cs2: "calls ?s2 = replicate (Suc k) (True, Done) @ replicate j (True, Start)"
    using Suc.prems(3) by (simp only: replicate_update_next)
  have sched: "concat (map (\<lambda>i. [i, i]) [k..<k + Suc j])
      = [k, k] @ concat (map (\<lambda>i. [i, i]) [Suc k..<Suc k + j])"
    by (simp add: upt_conv_Cons)
  from Suc.IH [OF inv2 free2 cs2] show ?case
    unfolding sched by simp
qed

lemma forced_calls_complete:
  assumes "listed_for n w"
  shows "all_done (run (in_turn n) (forced_calls n reg w))"
proof -
  have "calls (forced_calls n reg w) = replicate 0 (True, Done) @ replicate n (True, Start)"
    "\<not> locked (forced_calls n reg w)"
    by (simp_all add: forced_calls_def)
  from in_turn_complete [OF assms forced_inv_initial this(2) this(1)] show ?thesis
    by (simp add: in_turn_def)
qed

lemmas run_eval =
  resume_def with_lock_def forced_calls_def all_done_def listed_for_def fetching_def
  cold_registry_def

text \<open>
  Claim C3, as stated, fails: two calls of \<^verbatim>\<open>refresh(force=True)\<close>, every request
  answered with the listing. The first call takes the lock and sends its request, the
  second finds the lock held and waits: both have started, none has returned. The first
  gets its answer and returns; the second takes the lock, skips the freshness test
  because it is forced, and sends a request of its own. Two requests are made.
\<close>

theorem two_forced_refreshes_fetch_twice:
  "listed_for 2 (example_world (upstream_lists listing_AB) no_chat)
   \<and> gets (example_world (upstream_lists listing_AB) no_chat) = 0
   \<and> calls (run [0, 1]
        (forced_calls 2 cold_registry (example_world (upstream_lists listing_AB) no_chat)))
       = [(True, Await_get 0 2 None), (True, Wait_lock)]
   \<and> all_done (run [0, 1, 0, 1, 1]
        (forced_calls 2 cold_registry (example_world (upstream_lists listing_AB) no_chat)))
   \<and> gets (outside (run [0, 1, 0, 1, 1]
        (forced_calls 2 cold_registry (example_world (upstream_lists listing_AB) no_chat)))) = 2"
  by (simp add: run_eval refresh_eval)

text \<open>
  Claim C3, amended. \<open>n\<close> concurrent calls of \<^verbatim>\<open>refresh(force=True)\<close>, absent fetch
  failures, make one upstream request each, \<open>n\<close> in total once all have returned, in
  every order in which the event loop resumes them. The lock only puts the requests one
  after the other: at most one is in flight at any moment, and exactly while the lock is
  held; a call that finds a refresh in flight waits at the lock, and sends its own
  request once it holds the lock. At every moment the number of requests sent is the
  number of calls that have got past the lock. Schedules in which all calls return
  exist for every \<open>n\<close>: resuming the calls in turn, each twice, is one.
\<close>

theorem forced_refreshes_fetch_one_by_one:
  assumes "listed_for n w"
  shows "fetching (run sched (forced_calls n reg w)) \<le> 1
     \<and> (fetching (run sched (forced_calls n reg w)) = 1
          \<longleftrightarrow> locked (run sched (forced_calls n reg w)))
     \<and> gets (outside (run sched (forced_calls n reg w)))
          = gets w + length (filter (\<lambda>c. issued (snd c))
                               (calls (run sched (forced_calls n reg w))))
     \<and> (all_done (run sched (forced_calls n reg w))
          \<longrightarrow> gets (outside (run sched (forced_calls n reg w))) = gets w + n)
     \<and> all_done (run (in_turn n) (forced_calls n reg w))"
proof -
  let ?s = "run sched (forced_calls n reg w)"
  have inv: "forced_inv n w ?s"
    using forced_inv_run [OF forced_inv_initial assms] .
  have "filter (\<lambda>c. issued (snd c)) (calls ?s) = calls ?s" if "all_done ?s"
    using that by (auto simp: all_done_def list_all_iff filter_id_conv)
  with inv forced_calls_complete [OF assms, of reg] show ?thesis
    by (auto simp: forced_inv_def)
qed

text \<open>Three forced calls: the first fetches while the two others wait, then the third,
  then the second; three requests.\<close>

theorem forced_refreshes_fetch_one_by_one_witness:
  "listed_for 3 (example_world (upstream_lists listing_AB) no_chat)
   \<and> all_done (run [0, 1, 2, 0, 2, 2, 1, 1]
        (forced_calls 3 cold_registry (example_world (upstream_lists listing_AB) no_chat)))
   \<and> gets (outside (run [0, 1, 2, 0, 2, 2, 1, 1]
        (forced_calls 3 cold_registry (example_world (upstream_lists listing_AB) no_chat))))
       = gets (example_world (upstream_lists listing_AB) no_chat) + 3"
proof -
  let ?w = "example_world (upstream_lists listing_AB) no_chat"
  have l: "listed_for 3 ?w" by (simp add: run_eval refresh_eval)
  have d: "all_done (run [0, 1, 2, 0, 2, 2, 1, 1] (forced_calls 3 cold_registry ?w))"
    by (simp add: run_eval refresh_eval)
  from forced_refreshes_fetch_one_by_one [OF l, of "[0, 1, 2, 0, 2, 2, 1, 1]" cold_registry] l d
  show ?thesis by blast
qed

lemma attempts_unforced: "attempts False reg = Suc 0"
  by (simp add: attempts_def)

lemma resume_frame_out:
  "\<not> i < length (calls s) \<Longrightarrow> resume i s = s"
  by (simp add: resume_def)

text \<open>Resuming any call keeps the two phases of calls that are not forced.\<close>

lemma unforced_step:
  assumes ttl: "0 < ttl_sec reg0"
    and stale: "\<forall>j. \<not> clock w0 j - last_fetch reg0 < ttl_sec reg0"
    and window: "\<forall>i j. clock w0 j - clock w0 i < ttl_sec reg0"
    and first: "read_models (models_api w0 (gets w0)) = Inr ids" and ne: "ids \<noteq> []"
    and frame: "clock (outside s) = clock w0" "models_api (outside s) = models_api w0"
    and phase: "stale_phase reg0 w0 s \<or> fresh_phase ids reg0 w0 s"
  shows "clock (outside (resume i s)) = clock w0
     \<and> models_api (outside (resume i s)) = models_api w0
     \<and> length (calls (resume i s)) = length (calls s)
     \<and> (stale_phase reg0 w0 (resume i s) \<or> fresh_phase ids reg0 w0 (resume i s))"
proof (cases "i < length (calls s)")
  case False
  then show ?thesis using frame phase by (simp add: resume_def)
next
  case True
  let ?cs = "calls s"
  let ?w = "outside s"
  let ?fly = "\<lambda>c. in_flight (snd c)"
  note upd_fly = length_filter_update [OF True, of ?fly]
  have mem: "?cs ! i \<in> set ?cs" using True by simp
  from phase show ?thesis
  proof
    assume st: "stale_phase reg0 w0 s"
    then have reg: "shared s = reg0"
      and ok: "list_all (unforced_ok (gets w0)) ?cs"
      and fly: "length (filter ?fly ?cs) = (if locked s then 1 else 0)"
      and cnt: "gets ?w = gets w0 + length (filter ?fly ?cs)"
      by (simp_all add: stale_phase_def fetching_def)
    from ok True have oki: "unforced_ok (gets w0) (?cs ! i)" by (simp add: list_all_length)
    then have nf: "\<not> fst (?cs ! i)" by (simp add: unforced_ok_def)
    have notfresh: "is_fresh reg0 w = (False, w\<lparr>ticks := Suc (ticks w)\<rparr>)"
      if "clock w = clock w0" for w
      using ttl stale that by (simp add: is_fresh_def time_time_def)
    let ?w1 = "?w\<lparr>ticks := Suc (ticks ?w)\<rparr>"
    let ?w2 = "?w1\<lparr>ticks := Suc (ticks ?w1)\<rparr>"
    show ?thesis
    proof (cases "snd (?cs ! i)")
      case Start
      have notfly: "\<not> ?fly (?cs ! i)" using Start by simp
      show ?thesis
      proof (cases "locked s")
        case True
        have step: "call_step (fst (?cs ! i)) (snd (?cs ! i)) (shared s) ?w (locked s)
            = (Wait_lock, reg0, ?w1, True)"
          using Start nf reg True notfresh [of ?w] frame by simp
        have newok: "unforced_ok (gets w0) (fst (?cs ! i), Wait_lock)"
          using nf by (simp add: unforced_ok_def)
        show ?thesis
          unfolding resume_unfold [OF \<open>i < length ?cs\<close> step]
          using frame fly cnt True notfly upd_fly [of "(fst (?cs ! i), Wait_lock)"]
            list_all_update [OF ok newok, of i]
          by (simp add: stale_phase_def fetching_def)
      next
        case False
        have step: "call_step (fst (?cs ! i)) (snd (?cs ! i)) (shared s) ?w (locked s)
            = (Await_get (gets ?w) 0 None, reg0, ?w2\<lparr>gets := Suc (gets ?w)\<rparr>, True)"
          using Start nf reg False notfresh [of ?w] notfresh [of ?w1] frame
          by (simp add: with_lock_def attempts_unforced)
        have g: "gets ?w = gets w0" using cnt fly False by simp
        have newok: "unforced_ok (gets w0) (fst (?cs ! i), Await_get (gets ?w) 0 None)"
          using nf g by (simp add: unforced_ok_def)
        show ?thesis
          unfolding resume_unfold [OF \<open>i < length ?cs\<close> step]
          using frame fly cnt False notfly
            upd_fly [of "(fst (?cs ! i), Await_get (gets ?w) 0 None)"]
            list_all_update [OF ok newok, of i]
          by (simp add: stale_phase_def fetching_def)
      qed
    next
      case Wait_lock
      have notfly: "\<not> ?fly (?cs ! i)" using Wait_lock by simp
      show ?thesis
      proof (cases "locked s")
        case True
        have step: "call_step (fst (?cs ! i)) (snd (?cs ! i)) (shared s) ?w (locked s)
            = (Wait_lock, reg0, ?w, True)"
          using Wait_lock reg True by simp
        have same: "?cs[i := (fst (?cs ! i), Wait_lock)] = ?cs"
          using Wait_lock by (metis list_update_id prod.collapse)
        show ?thesis
          unfolding resume_unfold [OF \<open>i < length ?cs\<close> step] same
          using frame st True reg by (simp add: stale_phase_def fetching_def)
      next
        case False
        have step: "call_step (fst (?cs ! i)) (snd (?cs ! i)) (shared s) ?w (locked s)
            = (Await_get (gets ?w) 0 None, reg0, ?w1\<lparr>gets := Suc (gets ?w)\<rparr>, True)"
          using Wait_lock nf reg False notfresh [of ?w] frame
          by (simp add: with_lock_def attempts_unforced)
        have g: "gets ?w = gets w0" using cnt fly False by simp
        have newok: "unforced_ok (gets w0) (fst (?cs ! i), Await_get (gets ?w) 0 None)"
          using nf g by (simp add: unforced_ok_def)
        show ?thesis
          unfolding resume_unfold [OF \<open>i < length ?cs\<close> step]
          using frame fly cnt False notfly
            upd_fly [of "(fst (?cs ! i), Await_get (gets ?w) 0 None)"]
            list_all_update [OF ok newok, of i]
          by (simp add: stale_phase_def fetching_def)
      qed
    next
      case (Await_get k m le)
      with oki have k: "k = gets w0" by (simp add: unforced_ok_def)
      have isfly: "?fly (?cs ! i)" using Await_get by simp
      have "0 < length (filter ?fly ?cs)"
        using mem isfly by (simp add: filter_empty_conv) blast
      with fly have held: "locked s" and one: "length (filter ?fly ?cs) = 1"
        by (simp_all split: if_splits)
      let ?reg1 = "reg0\<lparr>models := ids, last_fetch := clock w0 (ticks ?w)\<rparr>"
      have step: "call_step (fst (?cs ! i)) (snd (?cs ! i)) (shared s) ?w (locked s)
          = (Done, ?reg1, ?w1, False)"
        using Await_get k first ne frame reg
        by (simp add: store_models_def time_time_def)
      have nofly: "length (filter ?fly (?cs[i := (fst (?cs ! i), Done)])) = 0"
        using upd_fly [of "(fst (?cs ! i), Done)"] isfly one by simp
      have "settled c" if "c \<in> set (?cs[i := (fst (?cs ! i), Done)])" for c
      proof -
        from that obtain j where j: "j < length ?cs" "c = ?cs[i := (fst (?cs ! i), Done)] ! j"
          by (auto simp: in_set_conv_nth)
        show ?thesis
        proof (cases "j = i")
          case True
          with j nf show ?thesis by (simp add: settled_def)
        next
          case False
          with j have c: "c = ?cs ! j" by simp
          from ok j(1) have "unforced_ok (gets w0) (?cs ! j)" by (simp add: list_all_length)
          then have okc: "unforced_ok (gets w0) c" using c by simp
          have "c \<in> set (?cs[i := (fst (?cs ! i), Done)])" using that .
          with nofly have "\<not> ?fly c" by (auto simp: filter_empty_conv)
          with okc show ?thesis
            by (cases "snd c") (auto simp: unforced_ok_def settled_def)
        qed
      qed
      then have all: "list_all settled (?cs[i := (fst (?cs ! i), Done)])"
        by (simp add: list_all_iff)
      have "fresh_phase ids reg0 w0 \<lparr>shared = ?reg1, outside = ?w1, locked = False,
              calls = ?cs[i := (fst (?cs ! i), Done)]\<rparr>"
        using all cnt one by (auto simp: fresh_phase_def)
      then show ?thesis
        unfolding resume_unfold [OF \<open>i < length ?cs\<close> step]
        using frame by simp
    next
      case (Asleep m le)
      with oki show ?thesis by (simp add: unforced_ok_def)
    next
      case Done
      with oki show ?thesis by (simp add: unforced_ok_def)
    qed
  next
    assume fr: "fresh_phase ids reg0 w0 s"
    then obtain t where reg: "shared s = reg0\<lparr>models := ids, last_fetch := clock w0 t\<rparr>"
      and all: "list_all settled ?cs" and free: "\<not> locked s"
      and cnt: "gets ?w = Suc (gets w0)"
      by (auto simp: fresh_phase_def)
    from all True have si: "settled (?cs ! i)" by (simp add: list_all_length)
    then have nf: "\<not> fst (?cs ! i)" by (simp add: settled_def)
    let ?w1 = "?w\<lparr>ticks := Suc (ticks ?w)\<rparr>"
    have fresh: "is_fresh (shared s) ?w = (True, ?w1)"
      using ttl window frame reg by (simp add: is_fresh_def time_time_def)
    have newok: "settled (fst (?cs ! i), Done)" using nf by (simp add: settled_def)
    have step: "call_step (fst (?cs ! i)) (snd (?cs ! i)) (shared s) ?w (locked s)
          = (Done, shared s, ?w1, False) \<or>
        call_step (fst (?cs ! i)) (snd (?cs ! i)) (shared s) ?w (locked s)
          = (Done, shared s, ?w, False)"
      using si nf free fresh by (auto simp: settled_def with_lock_def)
    then show ?thesis
    proof
      assume step: "call_step (fst (?cs ! i)) (snd (?cs ! i)) (shared s) ?w (locked s)
          = (Done, shared s, ?w1, False)"
      show ?thesis
        unfolding resume_unfold [OF \<open>i < length ?cs\<close> step]
        using frame reg cnt list_all_update [OF all newok, of i]
        by (auto simp: fresh_phase_def)
    next
      assume step: "call_step (fst (?cs ! i)) (snd (?cs ! i)) (shared s) ?w (locked s)
          = (Done, shared s, ?w, False)"
      show ?thesis
        unfolding resume_unfold [OF \<open>i < length ?cs\<close> step]
        using frame reg cnt list_all_update [OF all newok, of i]
        by (auto simp: fresh_phase_def)
    qed
  qed
qed

lemma unforced_run:
  assumes ttl: "0 < ttl_sec reg0"
    and stale: "\<forall>j. \<not> clock w0 j - last_fetch reg0 < ttl_sec reg0"
    and window: "\<forall>i j. clock w0 j - clock w0 i < ttl_sec reg0"
    and first: "read_models (models_api w0 (gets w0)) = Inr ids" and ne: "ids \<noteq> []"
  shows "clock (outside s) = clock w0 \<Longrightarrow> models_api (outside s) = models_api w0 \<Longrightarrow>
     stale_phase reg0 w0 s \<or> fresh_phase ids reg0 w0 s \<Longrightarrow>
     length (calls (run sched s)) = length (calls s)
     \<and> (stale_phase reg0 w0 (run sched s) \<or> fresh_phase ids reg0 w0 (run sched s))"
proof (induction sched arbitrary: s)
  case Nil
  then show ?case by simp
next
  case (Cons i sched)
  from unforced_step [OF ttl stale window first ne Cons.prems(1,2,3), of i]
  have 1: "clock (outside (resume i s)) = clock w0"
    and 2: "models_api (outside (resume i s)) = models_api w0"
    and 3: "length (calls (resume i s)) = length (calls s)"
    and 4: "stale_phase reg0 w0 (resume i s) \<or> fresh_phase ids reg0 w0 (resume i s)"
    by simp_all
  from Cons.IH [OF 1 2 4] 3 show ?case by simp
qed

text \<open>
  What the lock does dedup: calls that are not forced. On a stale cache, with a listing
  that is not empty and clock readings within one TTL, \<open>n\<close> concurrent calls of
  \<^verbatim>\<open>refresh(force=False)\<close> make one request in all, in every schedule: the calls
  that waited at the lock find the cache fresh when they get it.
\<close>
lemma unforced_refreshes_fetch_once:
  assumes ttl: "0 < ttl_sec reg"
    and stale: "\<forall>j. \<not> clock w j - last_fetch reg < ttl_sec reg"
    and window: "\<forall>i j. clock w j - clock w i < ttl_sec reg"
    and first: "read_models (models_api w (gets w)) = Inr ids" and ne: "ids \<noteq> []"
    and n: "0 < n"
    and fin: "all_done (run sched (unforced_calls n reg w))"
  shows "gets (outside (run sched (unforced_calls n reg w))) = Suc (gets w)
     \<and> models (shared (run sched (unforced_calls n reg w))) = ids"
proof -
  let ?start = "unforced_calls n reg w"
  let ?s = "run sched ?start"
  have init: "stale_phase reg w ?start \<or> fresh_phase ids reg w ?start"
    by (simp add: stale_phase_def unforced_calls_def fetching_def unforced_ok_def list_all_iff)
  have "clock (outside ?start) = clock w" "models_api (outside ?start) = models_api w"
    by (simp_all add: unforced_calls_def)
  moreover have l0: "length (calls ?start) = n" by (simp add: unforced_calls_def)
  ultimately have len: "length (calls ?s) = n"
    and ph: "stale_phase reg w ?s \<or> fresh_phase ids reg w ?s"
    using unforced_run [OF ttl stale window first ne _ _ init, of sched] by simp_all
  from len n obtain c where c: "c \<in> set (calls ?s)" by (cases "calls ?s") auto
  with fin have "snd c = Done" by (simp add: all_done_def list_all_iff)
  have "\<not> stale_phase reg w ?s"
  proof
    assume "stale_phase reg w ?s"
    with c have "unforced_ok (gets w) c" by (simp add: stale_phase_def list_all_iff)
    with \<open>snd c = Done\<close> show False by (simp add: unforced_ok_def)
  qed
  with ph have "fresh_phase ids reg w ?s" by blast
  then show ?thesis by (auto simp: fresh_phase_def)
qed

end
